theory Spec2Isabelle
  imports Complex_Main "HOL-Library.Word" "HOL-Library.AList"
begin

unbundle bit_operations_syntax

section \<open>Machine types and runtime faults\<close>

text \<open>
  Go's \<open>uint32\<close> and \<open>int32\<close> are 32-bit words; \<open>+\<close> wraps, comparisons of an \<open>int32\<close> are
  the signed ones (\<open>\<le>s\<close>), its \<open>>>\<close> is the arithmetic shift \<open>signed_drop_bit\<close>.

  A \<open>float64\<close> is a finite value, modelled by the real number it denotes, or one of the two
  infinities, or NaN. The comparison \<open><\<close> and \<open>math.Ceil\<close> are exact on floats; a comparison
  with NaN is false. The addition that accumulates \<open>Sum\<close> is modelled without rounding and
  without overflow to an infinity.
\<close>

type_synonym uint32 = "32 word"
type_synonym int32 = "32 word"

datatype float64 = Finite real | PosInf | NegInf | NaN

text \<open>Go's \<open>a < b\<close> on floats; \<open>a > b\<close> is \<open>f64_less b a\<close>.\<close>

fun f64_less :: "float64 \<Rightarrow> float64 \<Rightarrow> bool" where
  "f64_less (Finite x) (Finite y) = (x < y)"
| "f64_less (Finite x) PosInf = True"
| "f64_less NegInf (Finite y) = True"
| "f64_less NegInf PosInf = True"
| "f64_less a b = False"

fun f64_add :: "float64 \<Rightarrow> float64 \<Rightarrow> float64" where
  "f64_add (Finite x) (Finite y) = Finite (x + y)"
| "f64_add NaN b = NaN"
| "f64_add a NaN = NaN"
| "f64_add PosInf NegInf = NaN"
| "f64_add NegInf PosInf = NaN"
| "f64_add PosInf b = PosInf"
| "f64_add a PosInf = PosInf"
| "f64_add NegInf b = NegInf"
| "f64_add a NegInf = NegInf"

fun math_Ceil :: "float64 \<Rightarrow> float64" where
  "math_Ceil (Finite x) = Finite (of_int \<lceil>x\<rceil>)"
| "math_Ceil v = v"

text \<open>
  What can stop a Go function short of its result: a run-time panic, or a conversion whose
  result the language leaves to the implementation.
\<close>

datatype fault =
    ConversionUnspecified
  | PanicNegativeShift
  | PanicIndexOutOfRange
  | PanicSliceBounds
  | PanicNilMap

section \<open>The HDR histogram (package expv2)\<close>

definition lowestTrackable :: int where
  "lowestTrackable = 0"

definition highestTrackable :: int where
  "highestTrackable = push_bit 30 1"

text \<open>The fields \<open>Max\<close>, \<open>Min\<close> and \<open>Sum\<close> of the Go struct are \<open>hMax\<close>, \<open>hMin\<close> and \<open>hSum\<close>.\<close>

record histogram =
  Buckets :: "uint32 list"
  ExtraLowBucket :: uint32
  ExtraHighBucket :: uint32
  FirstNotZeroBucket :: uint32
  LastNotZeroBucket :: uint32
  hMax :: float64
  hMin :: float64
  hSum :: float64
  Count :: uint32

text \<open>The zero value \<open>histogram{}\<close>.\<close>

definition histogram_zero :: histogram where
  "histogram_zero =
     \<lparr>Buckets = [], ExtraLowBucket = 0, ExtraHighBucket = 0,
      FirstNotZeroBucket = 0, LastNotZeroBucket = 0,
      hMax = Finite 0, hMin = Finite 0, hSum = Finite 0, Count = 0\<rparr>"

text \<open>
  The conversion \<open>int32(x)\<close> of a float: the fraction is discarded (truncation towards zero);
  when the result does not fit, and for an infinity or NaN, Go leaves the value to the
  implementation.
\<close>

fun int32_of_float64 :: "float64 \<Rightarrow> fault + int32" where
  "int32_of_float64 (Finite x) =
     (let t = (if x < 0 then \<lceil>x\<rceil> else \<lfloor>x\<rfloor>)
      in if - (2 ^ 31) \<le> t \<and> t < 2 ^ 31 then Inr (word_of_int t)
         else Inl ConversionUnspecified)"
| "int32_of_float64 v = Inl ConversionUnspecified"

text \<open>
  \<open>floor_log2 n\<close> is the position of the most significant bit of \<open>n\<close>, which is
  \<open>\<lfloor>log\<^sub>2 n\<rfloor>\<close> for \<open>n > 0\<close> (lemma \<open>floor_log2_log\<close> below).
\<close>

function floor_log2 :: "nat \<Rightarrow> nat" where
  "floor_log2 n = (if n < 2 then 0 else Suc (floor_log2 (n div 2)))"
  by pat_completeness auto
termination
  by (relation "measure (\<lambda>n. n)") auto

declare floor_log2.simps [simp del]

text \<open>
  \<open>int32(math.Floor(math.Log2(float64(x))))\<close> for an \<open>int32\<close> \<open>x\<close>. The conversion of \<open>x\<close> to
  \<open>float64\<close> is exact. For \<open>1 \<le> x < 2\<^sup>3\<^sup>1\<close> the result is the integer \<open>floor_log2 x\<close>:
  \<open>math.Log2\<close> is exact on the powers of two, and elsewhere the logarithm of an integer
  below \<open>2\<^sup>3\<^sup>1\<close> is further from the next integer than the rounding error of \<open>math.Log2\<close>.
  For \<open>x \<le> 0\<close> the logarithm is minus infinity or NaN, whose conversion to \<open>int32\<close> is left
  to the implementation.
\<close>

definition floor_Log2_int32 :: "int32 \<Rightarrow> fault + int32" where
  "floor_Log2_int32 x =
     (if 0 <s x then Inr (word_of_nat (floor_log2 (nat (sint x))))
      else Inl ConversionUnspecified)"

text \<open>The constant \<open>k\<close> of \<open>resolveBucketIndex\<close>.\<close>

definition precision_k :: nat where
  "precision_k = 7"

text \<open>A shift by a signed count panics when the count is negative.\<close>

definition shr_int32 :: "int32 \<Rightarrow> int32 \<Rightarrow> fault + int32" where
  "shr_int32 x n =
     (if n <s 0 then Inl PanicNegativeShift else Inr (signed_drop_bit (unat n) x))"

definition resolveBucketIndex :: "float64 \<Rightarrow> fault + uint32" where
  "resolveBucketIndex val =
     (if f64_less val (Finite 0) then Inr 0
      else
        case int32_of_float64 (math_Ceil val) of
          Inl e \<Rightarrow> Inl e
        | Inr upscaled \<Rightarrow>
            if 256 \<le>s upscaled then
              (case floor_Log2_int32 (signed_drop_bit precision_k upscaled) of
                 Inl e \<Rightarrow> Inl e
               | Inr nk_diff \<Rightarrow>
                   (case shr_int32 upscaled nk_diff of
                      Inl e \<Rightarrow> Inl e
                    | Inr shifted \<Rightarrow> Inr (push_bit precision_k nk_diff + shifted)))
            else Inr upscaled)"

text \<open>The first part of \<open>addToBucket\<close>: running minimum and maximum, count and sum.\<close>

definition updateStats :: "histogram \<Rightarrow> float64 \<Rightarrow> histogram" where
  "updateStats h v =
     (let h1 = (if Count h = 0 then h\<lparr>hMax := v, hMin := v\<rparr>
                else h\<lparr>hMax := (if f64_less (hMax h) v then v else hMax h),
                       hMin := (if f64_less v (hMin h) then v else hMin h)\<rparr>)
      in h1\<lparr>Count := Count h1 + 1, hSum := f64_add (hSum h1) v\<rparr>)"

text \<open>
  The second part, for a value in the trackable range: the markers of the first and the
  last bucket in use, the growth of the array with zeros, the increment. The indexed
  write \<open>h.Buckets[index]++\<close> panics out of range.
\<close>

definition countInBucket :: "histogram \<Rightarrow> uint32 \<Rightarrow> fault + histogram" where
  "countInBucket h index =
     (let blen = (word_of_nat (length (Buckets h)) :: uint32);
          h1 = (if blen = 0
                then h\<lparr>FirstNotZeroBucket := index, LastNotZeroBucket := index\<rparr>
                else h\<lparr>FirstNotZeroBucket :=
                          (if index < FirstNotZeroBucket h then index else FirstNotZeroBucket h),
                        LastNotZeroBucket :=
                          (if index > LastNotZeroBucket h then index else LastNotZeroBucket h)\<rparr>);
          h2 = (if index \<ge> blen
                then h1\<lparr>Buckets := Buckets h1 @ replicate (unat (index - blen + 1)) 0\<rparr>
                else h1)
      in if unat index < length (Buckets h2)
         then Inr (h2\<lparr>Buckets := (Buckets h2)[unat index := Buckets h2 ! unat index + 1]\<rparr>)
         else Inl PanicIndexOutOfRange)"

definition addToBucket :: "histogram \<Rightarrow> float64 \<Rightarrow> fault + histogram" where
  "addToBucket h v =
     (let h1 = updateStats h v
      in if f64_less (Finite (of_int highestTrackable)) v
         then Inr (h1\<lparr>ExtraHighBucket := ExtraHighBucket h1 + 1\<rparr>)
         else if f64_less v (Finite (of_int lowestTrackable))
         then Inr (h1\<lparr>ExtraLowBucket := ExtraLowBucket h1 + 1\<rparr>)
         else case resolveBucketIndex v of
                Inl e \<Rightarrow> Inl e
              | Inr index \<Rightarrow> countInBucket h1 index)"

text \<open>
  The slice expression \<open>s[low:high]\<close>. Go allows \<open>high\<close> up to the capacity of \<open>s\<close>; the model
  does not track capacities and allows it up to the length.
\<close>

definition slice :: "'a list \<Rightarrow> nat \<Rightarrow> nat \<Rightarrow> fault + 'a list" where
  "slice s low high =
     (if low \<le> high \<and> high \<le> length s then Inr (take (high - low) (drop low s))
      else Inl PanicSliceBounds)"

definition trimzeros :: "histogram \<Rightarrow> fault + histogram" where
  "trimzeros h =
     (if Count h < 1 \<or> length (Buckets h) < 1 then Inr h
      else if FirstNotZeroBucket h = 0 \<and> LastNotZeroBucket h = 0
      then Inr (h\<lparr>Buckets := []\<rparr>)
      else case slice (Buckets h) (unat (FirstNotZeroBucket h)) (unat (LastNotZeroBucket h + 1)) of
             Inl e \<Rightarrow> Inl e
           | Inr bs \<Rightarrow> Inr (h\<lparr>Buckets := bs\<rparr>))"

text \<open>The loop of \<open>newHistogram\<close>.\<close>

fun addAll :: "histogram \<Rightarrow> float64 list \<Rightarrow> fault + histogram" where
  "addAll h [] = Inr h"
| "addAll h (v # vs) =
     (case addToBucket h v of Inl e \<Rightarrow> Inl e | Inr h' \<Rightarrow> addAll h' vs)"

definition newHistogram :: "float64 list \<Rightarrow> fault + histogram" where
  "newHistogram values =
     (if length values < 1 then Inr histogram_zero
      else case addAll histogram_zero values of
             Inl e \<Rightarrow> Inl e
           | Inr h \<Rightarrow> trimzeros h)"

text \<open>
  The bucket index as the specification words it, on unbounded naturals: \<open>u\<close> itself below 256,
  and \<open>(n << k) + (u >> n)\<close> with \<open>k = 7\<close> and \<open>n = \<lfloor>log\<^sub>2 (u >> k)\<rfloor>\<close> from 256 on.
\<close>

definition spec_bucket_index :: "nat \<Rightarrow> nat" where
  "spec_bucket_index u =
     (if u < 256 then u
      else (let n = floor_log2 (drop_bit 7 u) in push_bit 7 n + drop_bit n u))"

text \<open>
  The shape of the bucket array that \<open>addToBucket\<close> maintains: once a bucket exists, the array
  ends at the last bucket in use, and the first marker is not above the last.
\<close>

definition buckets_wf :: "histogram \<Rightarrow> bool" where
  "buckets_wf h \<longleftrightarrow>
     (Buckets h = [] \<or>
      (length (Buckets h) = Suc (unat (LastNotZeroBucket h)) \<and>
       FirstNotZeroBucket h \<le> LastNotZeroBucket h \<and>
       unat (LastNotZeroBucket h) < 3200))"

text \<open>The count invariant of the specification.\<close>

definition count_matches :: "histogram \<Rightarrow> bool" where
  "count_matches h \<longleftrightarrow>
     Count h = ExtraLowBucket h + ExtraHighBucket h + sum_list (Buckets h)"

text \<open>No bucket below the first marker holds a count.\<close>

definition leading_zeros :: "histogram \<Rightarrow> bool" where
  "leading_zeros h \<longleftrightarrow>
     (\<forall>i < unat (FirstNotZeroBucket h). i < length (Buckets h) \<longrightarrow> Buckets h ! i = 0)"

section \<open>Metrics, samples and the wire messages\<close>

text \<open>
  Modelled from the spec: the declarations of package \<open>metrics\<close> (\<open>MetricType\<close>, \<open>Metric\<close>,
  \<open>TimeSeries\<close>, \<open>Sample\<close>) and of the generated package \<open>pbcloud\<close> are not among the sources.
  They are given here with the fields that the code of \<open>expv2\<close> reads and writes; a metric has
  one of the four types of the specification's data model.

  A value of \<open>Metric\<close> stands for a pointer \<open>*metrics.Metric\<close>: the address, which is what a
  Go map compares, and the fields read through it. The tag set of a time series is the list
  of its key/value pairs in the order in which \<open>Tags.Map()\<close> is iterated. A time stamp is a
  number of nanoseconds.
\<close>

datatype MetricType = Counter | Gauge | Trend | Rate

record Metric =
  address :: nat
  Name :: string
  Type :: MetricType

record TimeSeries =
  Metric :: Metric
  Tags :: "(string \<times> string) list"

record Sample =
  TimeSeries :: TimeSeries
  Time :: int
  Value :: float64

text \<open>A \<open>metrics.SampleContainer\<close> is what its method \<open>GetSamples\<close> returns.\<close>

type_synonym SampleContainer = "Sample list"

datatype pb_MetricType =
  METRIC_TYPE_UNSPECIFIED | METRIC_TYPE_COUNTER | METRIC_TYPE_GAUGE | METRIC_TYPE_RATE | METRIC_TYPE_TREND

text \<open>\<open>Label name value\<close>, \<open>CounterValue time value\<close>, \<open>GaugeValue time last min max avg\<close>,
  \<open>RateValue time nonzeroCount totalCount\<close>.\<close>

datatype pb_Label = Label string string

datatype pb_CounterValue = CounterValue int float64

datatype pb_GaugeValue = GaugeValue int float64 float64 float64 float64

datatype pb_RateValue = RateValue int uint32 uint32

record pb_TrendHdrValue =
  hdr_Time :: int
  MinResolution :: float64
  SignificantDigits :: nat
  LowerCounterIndex :: uint32
  MinValue :: float64
  MaxValue :: float64
  hdr_Sum :: float64
  hdr_Count :: uint32
  Counters :: "uint32 list"
  ExtraLowValuesCounter :: "uint32 option"
  ExtraHighValuesCounter :: "uint32 option"

text \<open>The \<open>oneof\<close> field \<open>Samples\<close> of a wire time series; \<open>NoSamples\<close> is the unset field.\<close>

datatype pb_Samples =
    NoSamples
  | CounterSamples "pb_CounterValue list"
  | GaugeSamples "pb_GaugeValue list"
  | RateSamples "pb_RateValue list"
  | TrendHdrSamples "pb_TrendHdrValue list"

record pb_TimeSeries =
  Labels :: "pb_Label list"
  pb_Samples :: pb_Samples

record pb_Metric =
  pb_Name :: string
  pb_Type :: pb_MetricType
  pb_TimeSeries :: "pb_TimeSeries list"

record MetricSet =
  Metrics :: "pb_Metric list"

definition histogramAsProto :: "histogram \<Rightarrow> int \<Rightarrow> pb_TrendHdrValue" where
  "histogramAsProto h time =
     \<lparr>hdr_Time = time,
      MinResolution = Finite 1.0,
      SignificantDigits = 2,
      LowerCounterIndex = FirstNotZeroBucket h,
      MinValue = hMin h,
      MaxValue = hMax h,
      hdr_Sum = hSum h,
      hdr_Count = Count h,
      Counters = Buckets h,
      ExtraLowValuesCounter = (if ExtraLowBucket h > 0 then Some (ExtraLowBucket h) else None),
      ExtraHighValuesCounter = (if ExtraHighBucket h > 0 then Some (ExtraHighBucket h) else None)\<rparr>"

section \<open>The sample aggregator\<close>

text \<open>
  A Go map is a reference. The struct \<open>aggregatedSamples\<close> is copied by value (into and out of
  \<open>activeSeries\<close>, into the loop variable of \<open>flushMetrics\<close>), and every copy refers to the same
  map. So the maps live in a store, a list indexed by reference; \<open>Samples\<close> holds the reference,
  \<open>None\<close> for the nil map. A map itself is the list of its entries, with distinct keys, in the
  order in which a \<open>range\<close> loop visits them.
\<close>

type_synonym samples_map = "(TimeSeries \<times> Sample list) list"

type_synonym map_store = "samples_map list"

record aggregatedSamples =
  Samples :: "nat option"

text \<open>The entries behind a reference; a nil map has none.\<close>

definition entries :: "map_store \<Rightarrow> aggregatedSamples \<Rightarrow> samples_map" where
  "entries st as =
     (case Samples as of
        None \<Rightarrow> []
      | Some r \<Rightarrow> if r < length st then st ! r else [])"

text \<open>Writing to a nil map panics.\<close>

definition AddSample :: "map_store \<Rightarrow> aggregatedSamples \<Rightarrow> Sample \<Rightarrow> fault + map_store" where
  "AddSample st as s =
     (case Samples as of
        None \<Rightarrow> Inl PanicNilMap
      | Some r \<Rightarrow>
          if r < length st then
            (case map_of (st ! r) (TimeSeries s) of
               None \<Rightarrow> Inr (st[r := AList.update (TimeSeries s) [s] (st ! r)])
             | Some tss \<Rightarrow> Inr (st[r := AList.update (TimeSeries s) (tss @ [s]) (st ! r)]))
          else Inl PanicNilMap)"

definition Clean :: "map_store \<Rightarrow> aggregatedSamples \<Rightarrow> map_store" where
  "Clean st as =
     (case Samples as of
        None \<Rightarrow> st
      | Some r \<Rightarrow>
          if r < length st then st[r := fold AList.delete (map fst (st ! r)) (st ! r)]
          else st)"

text \<open>
  The body of the loop of \<open>MapAsProto\<close> for a time series that is not skipped. The test
  \<open>Value != 0\<close> of a rate sample holds for every value but zero, NaN included.
\<close>

definition seriesAsProto :: "string \<Rightarrow> TimeSeries \<Rightarrow> Sample list \<Rightarrow> pb_TimeSeries" where
  "seriesAsProto refID ts samples =
     \<lparr>Labels =
        [Label ''__name__'' (Name (Metric ts)), Label ''test_run_id'' refID]
        @ map (\<lambda>(ktag, vtag). Label ktag vtag) (Tags ts),
      pb_Samples =
        (case Type (Metric ts) of
           Counter \<Rightarrow> CounterSamples (map (\<lambda>s. CounterValue (Time s) (Value s)) samples)
         | Gauge \<Rightarrow>
             GaugeSamples
               (map (\<lambda>s. GaugeValue (Time s) (Value s) (Value s) (Value s) (Value s)) samples)
         | Rate \<Rightarrow>
             RateSamples
               (map (\<lambda>s. RateValue (Time s) (if Value s \<noteq> Finite 0 then 1 else 0) 1) samples)
         | Trend \<Rightarrow> NoSamples)\<rparr>"

text \<open>\<open>MapAsProto\<close>; the nil slice and the empty slice are both the empty list.\<close>

definition MapAsProto :: "map_store \<Rightarrow> aggregatedSamples \<Rightarrow> string \<Rightarrow> pb_TimeSeries list" where
  "MapAsProto st as refID =
     (if length (entries st as) < 1 then []
      else concat (map (\<lambda>(ts, samples).
                     if Type (Metric ts) = Trend then []
                     else [seriesAsProto refID ts samples]) (entries st as)))"

section \<open>The push client\<close>

text \<open>
  The client calls into libraries that are not part of the repository: the protobuf
  encoder, the Snappy block compressor, the URL parser behind \<open>http.NewRequestWithContext\<close>
  and the HTTP transport. Their results are parameters of the model, collected in \<open>env\<close>;
  a library error is the text of its message. Every call that leaves the client is
  recorded, in order, in a list of \<open>call\<close>s, so that what was not called can be stated.
  \<open>bytes.Buffer.Write\<close> always returns a nil error and is not a point of failure.
\<close>

type_synonym byte = "8 word"

record http_request =
  Method :: string
  URL :: string
  Header :: "(string \<times> string) list"
  Body :: "byte list"

record http_response =
  StatusCode :: int
  Status :: string

record env =
  proto_Marshal :: "MetricSet \<Rightarrow> string + byte list"
  snappy_Encode :: "byte list \<Rightarrow> byte list"
  url_Parse :: "string \<Rightarrow> string option"
  http_Do :: "http_request \<Rightarrow> string + http_response"

text \<open>The errors that the client builds with \<open>fmt.Errorf\<close>, or passes on.\<close>

datatype error =
    HostRequired
  | TokenRequired
  | ReferenceIDRequired
  | EncodingFailed string
  | TooLargeForCloud nat
  | TooLargeForSnappy nat
  | RequestInvalid string
  | PushFailed string
  | UnexpectedStatus string

datatype call =
    Marshal MetricSet
  | SnappyEncode "byte list"
  | HttpDo http_request
  | LogError error
  | LogDebug string

record MetricsClient =
  host :: string
  token :: string
  userAgent :: string

text \<open>\<open>consts.Version\<close> is declared outside the sources and is a parameter.\<close>

definition NewMetricsClient :: "string \<Rightarrow> string \<Rightarrow> string \<Rightarrow> error + MetricsClient" where
  "NewMetricsClient version host' token' =
     (if host' = [] then Inl HostRequired
      else if token' = [] then Inl TokenRequired
      else Inr \<lparr>host = host', token = token', userAgent = ''k6cloud/v'' @ version\<rparr>)"

definition b100KiB :: int where
  "b100KiB = 100 * 1024"

text \<open>
  \<open>snappy.MaxEncodedLen\<close> of the Snappy package: the argument is read as a \<open>uint64\<close>, and the
  result is \<open>-1\<close> when the source or the bound \<open>32 + n + n/6\<close> exceeds \<open>0xffffffff\<close>.
\<close>

definition snappy_MaxEncodedLen :: "int \<Rightarrow> int" where
  "snappy_MaxEncodedLen srcLen =
     (let n = srcLen mod 2 ^ 64
      in if n > 4294967295 then - 1
         else (let n' = 32 + n + n div 6
               in if n' > 4294967295 then - 1 else n'))"

definition newRequestBody :: "env \<Rightarrow> MetricSet \<Rightarrow> (error + byte list) \<times> call list" where
  "newRequestBody ev data =
     (case proto_Marshal ev data of
        Inl err \<Rightarrow> (Inl (EncodingFailed err), [Marshal data])
      | Inr b \<Rightarrow>
          if int (length b) > b100KiB
          then (Inl (TooLargeForCloud (length b)), [Marshal data])
          else if snappy_MaxEncodedLen (int (length b)) < 0
          then (Inl (TooLargeForSnappy (length b)), [Marshal data])
          else (Inr (snappy_Encode ev b), [Marshal data, SnappyEncode b]))"

text \<open>
  \<open>http.NewRequestWithContext\<close> with a valid method and a context that is not nil fails
  only when the URL does not parse.
\<close>

definition http_NewRequestWithContext ::
    "env \<Rightarrow> string \<Rightarrow> string \<Rightarrow> byte list \<Rightarrow> string + http_request" where
  "http_NewRequestWithContext ev method url body =
     (case url_Parse ev url of
        Some err \<Rightarrow> Inl err
      | None \<Rightarrow> Inr \<lparr>Method = method, URL = url, Header = [], Body = body\<rparr>)"

definition Header_Set :: "string \<Rightarrow> string \<Rightarrow> http_request \<Rightarrow> http_request" where
  "Header_Set key val req = req\<lparr>Header := AList.update key val (Header req)\<rparr>"

definition Push ::
    "env \<Rightarrow> MetricsClient \<Rightarrow> string \<Rightarrow> MetricSet \<Rightarrow> error option \<times> call list" where
  "Push ev mc refID samples =
     (if refID = [] then (Some ReferenceIDRequired, [])
      else
        let url = host mc @ ''/v2/metrics/'' @ refID
        in case newRequestBody ev samples of
             (Inl err, cs) \<Rightarrow> (Some err, cs)
           | (Inr b, cs) \<Rightarrow>
               (case http_NewRequestWithContext ev ''POST'' url b of
                  Inl err \<Rightarrow> (Some (RequestInvalid err), cs)
                | Inr req0 \<Rightarrow>
                    let req =
                      (Header_Set ''Authorization'' (''Token '' @ token mc)
                        (Header_Set ''K6-Metrics-Protocol-Version'' ''2.0''
                          (Header_Set ''Content-Encoding'' ''snappy''
                            (Header_Set ''Content-Type'' ''application/x-protobuf''
                              (Header_Set ''User-Agent'' (userAgent mc) req0)))))
                    in case http_Do ev req of
                         Inl err \<Rightarrow> (Some (PushFailed err), cs @ [HttpDo req])
                       | Inr resp \<Rightarrow>
                           if StatusCode resp \<noteq> 200
                           then (Some (UnexpectedStatus (Status resp)), cs @ [HttpDo req])
                           else (None, cs @ [HttpDo req, LogDebug ''Pushed part to cloud''])))"

text \<open>Whether a call is one to the HTTP transport.\<close>

fun is_HttpDo :: "call \<Rightarrow> bool" where
  "is_HttpDo (HttpDo req) = True"
| "is_HttpDo c = False"

section \<open>The output and its flush cycle\<close>

text \<open>
  \<open>buffer\<close> is the embedded \<open>output.SampleBuffer\<close>; \<open>mapStore\<close> is the store of the Go maps
  that the entries of \<open>activeSeries\<close> refer to. \<open>activeSeries\<close> is a map too, the list of its
  entries in the order of iteration. The configuration, the logger and the periodic
  flusher play no part in what follows.
\<close>

record Output =
  buffer :: "SampleContainer list"
  referenceID :: string
  client :: MetricsClient
  activeSeries :: "(Metric \<times> aggregatedSamples) list"
  mapStore :: map_store

definition New :: "string \<Rightarrow> string \<Rightarrow> string \<Rightarrow> error + Output" where
  "New version conf_host conf_token =
     (case NewMetricsClient version conf_host conf_token of
        Inl err \<Rightarrow> Inl err
      | Inr mc \<Rightarrow>
          Inr \<lparr>buffer = [], referenceID = [], client = mc, activeSeries = [], mapStore = []\<rparr>)"

definition SetReferenceID :: "Output \<Rightarrow> string \<Rightarrow> Output" where
  "SetReferenceID out refID = out\<lparr>referenceID := refID\<rparr>"

text \<open>
  Modelled from the spec: \<open>GetBufferedSamples\<close> of \<open>output.SampleBuffer\<close> is not among the
  sources. It drains the buffer: it returns whatever has accumulated since the last drain
  and leaves the buffer empty.
\<close>

definition GetBufferedSamples :: "Output \<Rightarrow> SampleContainer list \<times> Output" where
  "GetBufferedSamples out = (buffer out, out\<lparr>buffer := []\<rparr>)"

text \<open>
  The inner loop of \<open>collectSamples\<close>, over the samples of one container. \<open>make\<close> allocates
  a new map at the end of the store.
\<close>

fun addSamples :: "Output \<Rightarrow> Sample list \<Rightarrow> fault + Output" where
  "addSamples out [] = Inr out"
| "addSamples out (s # samples) =
     (let (aggr, out1) =
        (case map_of (activeSeries out) (Metric (TimeSeries s)) of
           Some a \<Rightarrow> (a, out)
         | None \<Rightarrow>
             (let a = \<lparr>Samples = Some (length (mapStore out))\<rparr>
              in (a, out\<lparr>mapStore := mapStore out @ [[]],
                         activeSeries :=
                           AList.update (Metric (TimeSeries s)) a (activeSeries out)\<rparr>)))
      in case AddSample (mapStore out1) aggr s of
           Inl e \<Rightarrow> Inl e
         | Inr st \<Rightarrow> addSamples (out1\<lparr>mapStore := st\<rparr>) samples)"

text \<open>The outer loop, over the containers.\<close>

fun addContainers :: "Output \<Rightarrow> SampleContainer list \<Rightarrow> fault + Output" where
  "addContainers out [] = Inr out"
| "addContainers out (sampleContainer # rest) =
     (case addSamples out sampleContainer of
        Inl e \<Rightarrow> Inl e
      | Inr out' \<Rightarrow> addContainers out' rest)"

definition collectSamples :: "Output \<Rightarrow> fault + (bool \<times> Output)" where
  "collectSamples out =
     (let (samplesContainers, out1) = GetBufferedSamples out
      in if length samplesContainers < 1 then Inr (False, out1)
         else case addContainers out1 samplesContainers of
                Inl e \<Rightarrow> Inl e
              | Inr out2 \<Rightarrow> Inr (True, out2))"

definition mapMetricProto :: "Output \<Rightarrow> Metric \<Rightarrow> aggregatedSamples \<Rightarrow> pb_Metric" where
  "mapMetricProto out m as =
     \<lparr>pb_Name = Name m,
      pb_Type =
        (case Type m of
           Counter \<Rightarrow> METRIC_TYPE_COUNTER
         | Gauge \<Rightarrow> METRIC_TYPE_GAUGE
         | Rate \<Rightarrow> METRIC_TYPE_RATE
         | Trend \<Rightarrow> METRIC_TYPE_TREND),
      pb_TimeSeries = MapAsProto (mapStore out) as (referenceID out)\<rparr>"

text \<open>
  The loop of \<open>flushMetrics\<close> over \<open>activeSeries\<close>: a metric whose map is empty is skipped, any
  other is encoded and its map cleaned through the loop variable \<open>aggr\<close>, a copy of the entry
  that refers to the same map.
\<close>

fun encodeSeries ::
    "Output \<Rightarrow> (Metric \<times> aggregatedSamples) list \<Rightarrow> pb_Metric list \<times> Output" where
  "encodeSeries out [] = ([], out)"
| "encodeSeries out ((m, aggr) # rest) =
     (if length (entries (mapStore out) aggr) < 1 then encodeSeries out rest
      else
        let pm = mapMetricProto out m aggr;
            out1 = out\<lparr>mapStore := Clean (mapStore out) aggr\<rparr>;
            (metricSet, out2) = encodeSeries out1 rest
        in (pm # metricSet, out2))"

definition flushMetrics :: "env \<Rightarrow> Output \<Rightarrow> fault + (Output \<times> call list)" where
  "flushMetrics ev out =
     (if referenceID out = [] then Inr (out, [])
      else
        case collectSamples out of
          Inl e \<Rightarrow> Inl e
        | Inr (hasOne, out1) \<Rightarrow>
            if \<not> hasOne then Inr (out1, [])
            else
              let (metricSet, out2) = encodeSeries out1 (activeSeries out1);
                  (err, calls) =
                    Push ev (client out2) (referenceID out2) \<lparr>Metrics = metricSet\<rparr>
              in case err of
                   Some e \<Rightarrow> Inr (out2, calls @ [LogError e])
                 | None \<Rightarrow>
                     Inr (out2,
                       calls @ [LogDebug ''Successfully flushed buffered samples to the cloud'']))"

text \<open>Every entry of \<open>activeSeries\<close> refers to a map of the store, as the entries that
  \<open>collectSamples\<close> creates do.\<close>

definition maps_allocated :: "Output \<Rightarrow> bool" where
  "maps_allocated out \<longleftrightarrow>
     list_all (\<lambda>(m, a). case Samples a of None \<Rightarrow> False | Some r \<Rightarrow> r < length (mapStore out))
       (activeSeries out)"


section \<open>Auxiliary notions and example values\<close>

text \<open>A wire time series carries per-sample values: counter, gauge or rate.\<close>

definition is_per_sample :: "pb_Samples \<Rightarrow> bool" where
  "is_per_sample x =
     (case x of CounterSamples vs \<Rightarrow> True | GaugeSamples vs \<Rightarrow> True | RateSamples vs \<Rightarrow> True
      | NoSamples \<Rightarrow> False | TrendHdrSamples vs \<Rightarrow> False)"

text \<open>The number of values that a wire time series carries.\<close>

fun value_count :: "pb_Samples \<Rightarrow> nat" where
  "value_count NoSamples = 0"
| "value_count (CounterSamples vs) = length vs"
| "value_count (GaugeSamples vs) = length vs"
| "value_count (RateSamples vs) = length vs"
| "value_count (TrendHdrSamples vs) = length vs"

text \<open>An entry of a map of samples whose metric is not a Trend.\<close>

definition not_Trend :: "TimeSeries \<times> Sample list \<Rightarrow> bool" where
  "not_Trend e = (Type (Metric (fst e)) \<noteq> Trend)"

text \<open>
  \<open>extends out out'\<close>: \<open>out'\<close> is \<open>out\<close> after samples were added; the entries of \<open>activeSeries\<close> are
  kept, every entry refers to a map, and the other fields are the same.
\<close>

definition extends :: "Output \<Rightarrow> Output \<Rightarrow> bool" where
  "extends out out' \<longleftrightarrow>
     maps_allocated out' \<and> buffer out' = buffer out \<and> referenceID out' = referenceID out \<and>
     client out' = client out \<and>
     (\<forall>m a. map_of (activeSeries out) m = Some a \<longrightarrow> map_of (activeSeries out') m = Some a)"

text \<open>
  An environment for examples: the encoder yields \<open>n\<close> zero bytes, Snappy is the identity,
  the URL parser rejects ASCII control characters as Go's \<open>net/url\<close> does, and the server
  answers 200.
\<close>

definition example_env :: "nat \<Rightarrow> env" where
  "example_env n =
     \<lparr>proto_Marshal = (\<lambda>data. Inr (replicate n 0)),
      snappy_Encode = (\<lambda>b. b),
      url_Parse = (\<lambda>url. if list_ex (\<lambda>c. of_char c < (32::nat) \<or> of_char c = (127::nat)) url
                          then Some ''net/url: invalid control character in URL'' else None),
      http_Do = (\<lambda>req. Inr \<lparr>StatusCode = 200, Status = ''200 OK''\<rparr>)\<rparr>"

definition example_client :: MetricsClient where
  "example_client = \<lparr>host = ''https://ingest.example'', token = ''secret'', userAgent = ''k6cloud/v0.0.0''\<rparr>"

definition example_metric :: "nat \<Rightarrow> MetricType \<Rightarrow> Metric" where
  "example_metric n t = \<lparr>address = n, Name = ''metric'', Type = t\<rparr>"

definition example_sample :: "Metric \<Rightarrow> real \<Rightarrow> Sample" where
  "example_sample m v =
     \<lparr>TimeSeries = \<lparr>Metric = m, Tags = [(''key1'', ''val1'')]\<rparr>, Time = 0, Value = Finite v\<rparr>"

definition example_output :: "string \<Rightarrow> SampleContainer list \<Rightarrow> Output" where
  "example_output refID containers =
     \<lparr>buffer = containers, referenceID = refID, client = example_client,
      activeSeries = [], mapStore = []\<rparr>"

text \<open>
  A store with four maps, of one series with two samples each: a Trend, a Counter, a Gauge
  and a Rate series.
\<close>

definition example_store :: map_store where
  "example_store =
     [[(TimeSeries (example_sample (example_metric 1 Trend) 42),
         [example_sample (example_metric 1 Trend) 42, example_sample (example_metric 1 Trend) 300])],
      [(TimeSeries (example_sample (example_metric 2 Counter) 42),
         [example_sample (example_metric 2 Counter) 42, example_sample (example_metric 2 Counter) 42])],
      [(TimeSeries (example_sample (example_metric 3 Gauge) 42),
         [example_sample (example_metric 3 Gauge) 42, example_sample (example_metric 3 Gauge) 7])],
      [(TimeSeries (example_sample (example_metric 4 Rate) 42),
         [example_sample (example_metric 4 Rate) 42, example_sample (example_metric 4 Rate) 0])]]"

section \<open>Properties of the histogram\<close>

subsection \<open>The binary logarithm\<close>

lemma floor_log2_bounds:
  "0 < n \<Longrightarrow> 2 ^ floor_log2 n \<le> n \<and> n < 2 ^ Suc (floor_log2 n)"
proof (induction n rule: floor_log2.induct)
  case (1 n)
  show ?case
  proof (cases "n < 2")
    case True
    with 1 have "n = 1" by simp
    then show ?thesis by (simp add: floor_log2.simps)
  next
    case False
    then have pos: "0 < n div 2" by simp
    from 1(1)[OF False pos] have lo: "2 ^ floor_log2 (n div 2) \<le> n div 2"
      and hi: "n div 2 < 2 ^ Suc (floor_log2 (n div 2))" by simp_all
    have eq: "floor_log2 n = Suc (floor_log2 (n div 2))"
      using False by (subst floor_log2.simps) simp
    from lo have "2 * 2 ^ floor_log2 (n div 2) \<le> n" by arith
    moreover from hi have "n < 2 * 2 ^ Suc (floor_log2 (n div 2))" by arith
    ultimately show ?thesis by (simp add: eq)
  qed
qed

lemma floor_log2_unique:
  assumes "2 ^ m \<le> n" "n < 2 ^ Suc m"
  shows "floor_log2 n = m"
proof -
  have pos: "0 < n" using assms(1) by (cases n) auto
  note b = floor_log2_bounds[OF pos]
  have "2 ^ floor_log2 n < (2::nat) ^ Suc m" using b assms by (meson le_less_trans)
  then have 1: "floor_log2 n < Suc m" by (simp only: power_strict_increasing_iff rel_simps)
  have "2 ^ m < (2::nat) ^ Suc (floor_log2 n)" using b assms by (meson le_less_trans)
  then have 2: "m < Suc (floor_log2 n)" by (simp only: power_strict_increasing_iff rel_simps)
  from 1 2 show ?thesis by simp
qed

lemma floor_log2_mono: "m \<le> n \<Longrightarrow> floor_log2 m \<le> floor_log2 n"
proof (cases "m = 0")
  case True
  then show ?thesis by (simp add: floor_log2.simps)
next
  case False
  assume mn: "m \<le> n"
  with False have pm: "0 < m" and pn: "0 < n" by simp_all
  have "2 ^ floor_log2 m \<le> m" using floor_log2_bounds[OF pm] by simp
  also have "m \<le> n" by fact
  also have "n < 2 ^ Suc (floor_log2 n)" using floor_log2_bounds[OF pn] by simp
  finally have "floor_log2 m < Suc (floor_log2 n)" by (simp only: power_strict_increasing_iff rel_simps)
  then show ?thesis by simp
qed

lemma floor_log2_log:
  assumes "0 < n"
  shows "int (floor_log2 n) = \<lfloor>log 2 (real n)\<rfloor>"
proof -
  note b = floor_log2_bounds[OF assms]
  have lo: "2 powr real (floor_log2 n) \<le> real n"
    using b by (simp add: powr_realpow flip: of_nat_power) 
  have "real n < real (2 ^ Suc (floor_log2 n))"
    using b by (simp only: of_nat_less_iff)
  moreover have "(2::real) powr real (Suc (floor_log2 n)) = 2 ^ Suc (floor_log2 n)"
    by (rule powr_realpow) simp
  ultimately have hi: "real n < 2 powr real (Suc (floor_log2 n))"
    by (simp only: of_nat_power of_nat_numeral)
  have 1: "real (floor_log2 n) \<le> log 2 (real n)"
    using lo assms by (simp add: le_log_iff)
  have 2: "log 2 (real n) < real (floor_log2 n) + 1"
    using hi assms by (simp add: log_less_iff add.commute)
  have "\<lfloor>log 2 (real n)\<rfloor> = int (floor_log2 n)"
    by (rule floor_unique) (use 1 2 in simp_all)
  then show ?thesis by simp
qed

subsection \<open>The bucket index on naturals\<close>

lemma spec_bucket_index_low: "u < 256 \<Longrightarrow> spec_bucket_index u = u"
  by (simp add: spec_bucket_index_def)

lemma spec_bucket_index_high:
  "256 \<le> u \<Longrightarrow>
   spec_bucket_index u = floor_log2 (u div 128) * 128 + u div 2 ^ floor_log2 (u div 128)"
  by (simp add: spec_bucket_index_def Let_def push_bit_eq_mult drop_bit_eq_div)

lemma sub_bucket_range:
  assumes "256 \<le> u"
  shows "1 \<le> floor_log2 (u div 128)"
    and "128 \<le> u div 2 ^ floor_log2 (u div 128)"
    and "u div 2 ^ floor_log2 (u div 128) < 256"
proof -
  let ?n = "floor_log2 (u div 128)"
  have a: "2 \<le> u div 128" using assms by arith
  then have pos: "0 < u div 128" by simp
  note b = floor_log2_bounds[OF pos]
  have "floor_log2 2 \<le> ?n" using a by (rule floor_log2_mono)
  moreover have "floor_log2 2 = 1" by (rule floor_log2_unique) simp_all
  ultimately show "1 \<le> ?n" by simp
  have "128 * 2 ^ ?n \<le> u" using b by arith
  then show "128 \<le> u div 2 ^ ?n" by (simp add: less_eq_div_iff_mult_less_eq)
  have "u < 128 * (2 * 2 ^ ?n)" using b by (simp only: power_Suc) arith
  then show "u div 2 ^ ?n < 256" by (simp add: div_less_iff_less_mult)
qed

lemma floor_log2_le_23:
  assumes "u < 2 ^ 31"
  shows "floor_log2 (u div 128) \<le> 23"
proof (cases "u div 128 = 0")
  case True
  then show ?thesis by (simp add: floor_log2.simps)
next
  case False
  then have pos: "0 < u div 128" by simp
  have "u div 128 < 2 ^ 24" using assms by simp
  with floor_log2_bounds[OF pos] have "2 ^ floor_log2 (u div 128) < (2::nat) ^ 24"
    by (meson le_less_trans)
  then have "floor_log2 (u div 128) < 24"
    by (simp only: power_strict_increasing_iff rel_simps)
  then show ?thesis by simp
qed

lemma spec_bucket_index_bound:
  assumes "u < 2 ^ 31"
  shows "spec_bucket_index u < 3200"
proof (cases "u < 256")
  case True
  then show ?thesis by (simp add: spec_bucket_index_low)
next
  case False
  then have h: "256 \<le> u" by simp
  show ?thesis
    using sub_bucket_range(3)[OF h] floor_log2_le_23[OF assms]
    by (simp add: spec_bucket_index_high[OF h])
qed

lemma spec_bucket_index_mono:
  assumes "u1 \<le> u2"
  shows "spec_bucket_index u1 \<le> spec_bucket_index u2"
proof -
  let ?n1 = "floor_log2 (u1 div 128)" and ?n2 = "floor_log2 (u2 div 128)"
  consider (low) "u2 < 256" | (mixed) "u1 < 256" "256 \<le> u2" | (high) "256 \<le> u1"
    by linarith
  then show ?thesis
  proof cases
    case low
    with assms show ?thesis by (simp add: spec_bucket_index_low)
  next
    case mixed
    from sub_bucket_range[OF mixed(2)] have "256 \<le> ?n2 * 128 + u2 div 2 ^ ?n2" by arith
    with mixed show ?thesis by (simp add: spec_bucket_index_low spec_bucket_index_high)
  next
    case high
    with assms have h2: "256 \<le> u2" by simp
    have n: "?n1 \<le> ?n2" using assms by (intro floor_log2_mono div_le_mono)
    show ?thesis
    proof (cases "?n1 = ?n2")
      case True
      have "u1 div 2 ^ ?n2 \<le> u2 div 2 ^ ?n2" using assms by (rule div_le_mono)
      with True show ?thesis by (simp add: spec_bucket_index_high high h2)
    next
      case False
      with n have "Suc ?n1 \<le> ?n2" by simp
      then have "Suc ?n1 * 128 \<le> ?n2 * 128" by (rule mult_le_mono1)
      with sub_bucket_range(3)[OF high] sub_bucket_range(2)[OF h2]
      have "?n1 * 128 + u1 div 2 ^ ?n1 \<le> ?n2 * 128 + u2 div 2 ^ ?n2" by simp
      then show ?thesis by (simp add: spec_bucket_index_high high h2)
    qed
  qed
qed

subsection \<open>The code computes the index of the specification\<close>

lemma sint_of_nat32: "u < 2 ^ 31 \<Longrightarrow> sint (of_nat u :: 32 word) = int u"
  by (simp add: signed_of_nat signed_take_bit_int_eq_self)

lemma unat_of_nat32: "u < 2 ^ 32 \<Longrightarrow> unat (of_nat u :: 32 word) = u"
  by (simp add: unsigned_of_nat take_bit_nat_eq_self)

lemma signed_drop_bit_of_nat32:
  assumes "u < 2 ^ 31"
  shows "signed_drop_bit n (of_nat u :: 32 word) = of_nat (drop_bit n u)"
proof (rule signed_word_eqI)
  have "drop_bit n u \<le> u" by (simp add: drop_bit_eq_div)
  with assms have "drop_bit n u < 2 ^ 31" by simp
  then show "sint (signed_drop_bit n (of_nat u :: 32 word)) = sint (of_nat (drop_bit n u) :: 32 word)"
    using assms by (simp add: sint_signed_drop_bit_eq sint_of_nat32 drop_bit_of_nat)
qed

lemma resolveBucketIndex_spec:
  assumes "0 \<le> v" "\<lceil>v\<rceil> < 2 ^ 31"
  shows "resolveBucketIndex (Finite v) = Inr (word_of_nat (spec_bucket_index (nat \<lceil>v\<rceil>)))"
proof -
  define u where "u = nat \<lceil>v\<rceil>"
  have c0: "0 \<le> \<lceil>v\<rceil>" using assms(1) by simp
  then have cu: "\<lceil>v\<rceil> = int u" by (simp add: u_def)
  have "int u < 2 ^ 31" using assms(2) by (simp only: cu)
  then have u31: "u < 2 ^ 31" by simp
  have conv: "int32_of_float64 (math_Ceil (Finite v)) = Inr (of_nat u)"
    using c0 assms(2) by (simp add: cu)
  have sle: "(256 \<le>s (of_nat u :: 32 word)) \<longleftrightarrow> 256 \<le> u"
    using u31 by (simp add: word_sle_eq sint_of_nat32)
  show ?thesis
  proof (cases "256 \<le> u")
    case False
    then show ?thesis
      using assms(1) conv sle
      by (simp add: resolveBucketIndex_def spec_bucket_index_low flip: u_def)
  next
    case True
    let ?a = "drop_bit 7 u"
    let ?n = "floor_log2 ?a"
    have a: "?a = u div 128" by (simp add: drop_bit_eq_div)
    have n23: "?n \<le> 23" using floor_log2_le_23[OF u31] by (simp add: a)
    have a31: "?a < 2 ^ 31" using u31 by (simp add: a)
    have a2: "2 \<le> ?a" using True by (simp add: a)
    have fl: "floor_Log2_int32 (signed_drop_bit precision_k (of_nat u)) = Inr (of_nat ?n)"
      using a2 a31
      by (simp add: floor_Log2_int32_def precision_k_def signed_drop_bit_of_nat32[OF u31]
          word_sless_alt sint_of_nat32)
    have n31: "?n < 2 ^ 31" and n32: "?n < 2 ^ 32" using n23 by simp_all
    have sh: "shr_int32 (of_nat u) (of_nat ?n) = Inr (of_nat (drop_bit ?n u))"
      by (simp add: shr_int32_def word_sless_alt sint_of_nat32[OF n31] unat_of_nat32[OF n32]
          signed_drop_bit_of_nat32[OF u31])
    have "resolveBucketIndex (Finite v) = Inr (push_bit precision_k (of_nat ?n) + of_nat (drop_bit ?n u))"
      using assms(1) conv sle True fl sh by (simp add: resolveBucketIndex_def)
    also have "push_bit precision_k (of_nat ?n) + of_nat (drop_bit ?n u)
        = (of_nat (push_bit 7 ?n + drop_bit ?n u) :: 32 word)"
      by (simp add: precision_k_def push_bit_of_nat)
    also have "push_bit 7 ?n + drop_bit ?n u = spec_bucket_index u"
      using True by (simp add: spec_bucket_index_def Let_def)
    finally show ?thesis by (simp add: u_def)
  qed
qed

subsection \<open>Adding a value: which inputs yield a histogram\<close>

lemma highestTrackable_eq: "highestTrackable = 1073741824"
  by (simp add: highestTrackable_def)

lemma Buckets_updateStats [simp]:
  "Buckets (updateStats h v) = Buckets h"
  "ExtraLowBucket (updateStats h v) = ExtraLowBucket h"
  "ExtraHighBucket (updateStats h v) = ExtraHighBucket h"
  "FirstNotZeroBucket (updateStats h v) = FirstNotZeroBucket h"
  "LastNotZeroBucket (updateStats h v) = LastNotZeroBucket h"
  "Count (updateStats h v) = Count h + 1"
  by (simp_all add: updateStats_def Let_def)

lemma nat_less_2p31: "(c::int) < 2 ^ 31 \<Longrightarrow> nat c < 2 ^ 31"
  by simp

lemma resolveBucketIndex_trackable:
  assumes "0 \<le> v" "v \<le> 2 ^ 30"
  shows "\<exists>index. resolveBucketIndex (Finite v) = Inr index \<and> unat index < 3200
     \<and> unat index = spec_bucket_index (nat \<lceil>v\<rceil>)"
proof -
  have "\<lceil>v\<rceil> \<le> 2 ^ 30" using assms(2) by (simp add: ceiling_le_iff)
  then have c: "\<lceil>v\<rceil> < 2 ^ 31" by simp
  from c have "nat \<lceil>v\<rceil> < 2 ^ 31" by (rule nat_less_2p31)
  then have b: "spec_bucket_index (nat \<lceil>v\<rceil>) < 3200" by (rule spec_bucket_index_bound)
  then have "unat (of_nat (spec_bucket_index (nat \<lceil>v\<rceil>)) :: 32 word) = spec_bucket_index (nat \<lceil>v\<rceil>)"
    by (intro unat_of_nat32) simp
  with b resolveBucketIndex_spec[OF assms(1) c] show ?thesis by simp
qed

lemma unat_grow:
  fixes index blen :: "32 word"
  assumes "blen \<le> index" "unat index < 3200"
  shows "unat (index - blen + 1) = Suc (unat index - unat blen)"
proof -
  have le: "unat blen \<le> unat index" using assms(1) by (simp add: word_le_nat_alt)
  have 1: "unat (index - blen) = unat index - unat blen"
    using assms(1) by (simp add: unat_sub)
  have "unat (index - blen + 1) = unat (index - blen) + unat (1 :: 32 word)"
    by (rule unat_add_lem[THEN iffD1]) (use 1 assms(2) in simp)
  then show ?thesis using 1 by simp
qed

lemma countInBucket_total:
  assumes "unat index < 3200"
  shows "\<exists>h'. countInBucket h index = Inr h'"
proof -
  let ?blen = "word_of_nat (length (Buckets h)) :: 32 word"
  have bl: "unat ?blen \<le> length (Buckets h)"
    by (simp add: unsigned_of_nat take_bit_nat_def)
  show ?thesis
  proof (cases "?blen \<le> index")
    case True
    have "unat index < length (Buckets h) + Suc (unat index - unat ?blen)"
      using bl by arith
    then show ?thesis using True assms
      by (simp add: countInBucket_def Let_def unat_grow)
  next
    case False
    then have "unat index < unat ?blen" by (simp add: word_le_nat_alt)
    with bl have "unat index < length (Buckets h)" by simp
    then show ?thesis using False
      by (simp add: countInBucket_def Let_def)
  qed
qed

lemma above_range_iff:
  "f64_less (Finite (of_int highestTrackable)) v \<longleftrightarrow>
     v = PosInf \<or> (\<exists>x. v = Finite x \<and> 2 ^ 30 < x)"
  by (cases v) (simp_all add: highestTrackable_eq)

lemma below_range_iff:
  "f64_less v (Finite (of_int lowestTrackable)) \<longleftrightarrow>
     v = NegInf \<or> (\<exists>x. v = Finite x \<and> x < 0)"
  by (cases v) (simp_all add: lowestTrackable_def)

lemma addToBucket_high:
  assumes "f64_less (Finite (of_int highestTrackable)) v"
  shows "addToBucket h v = Inr ((updateStats h v)\<lparr>ExtraHighBucket := ExtraHighBucket h + 1\<rparr>)"
  using assms by (simp add: addToBucket_def Let_def)

lemma addToBucket_low:
  assumes "f64_less v (Finite (of_int lowestTrackable))"
  shows "addToBucket h v = Inr ((updateStats h v)\<lparr>ExtraLowBucket := ExtraLowBucket h + 1\<rparr>)"
proof -
  have "\<not> f64_less (Finite (of_int highestTrackable)) v"
    using assms by (auto simp: above_range_iff below_range_iff)
  with assms show ?thesis by (simp add: addToBucket_def Let_def)
qed

lemma addToBucket_trackable:
  assumes "0 \<le> x" "x \<le> 2 ^ 30"
  shows "\<exists>index. unat index < 3200 \<and> resolveBucketIndex (Finite x) = Inr index \<and>
           addToBucket h (Finite x) = countInBucket (updateStats h (Finite x)) index"
proof -
  from resolveBucketIndex_trackable[OF assms] obtain index
    where r: "resolveBucketIndex (Finite x) = Inr index" and b: "unat index < 3200" by blast
  have "addToBucket h (Finite x) = countInBucket (updateStats h (Finite x)) index"
    using assms r by (simp add: addToBucket_def Let_def highestTrackable_eq lowestTrackable_def)
  with r b show ?thesis by blast
qed

lemma addToBucket_NaN: "addToBucket h NaN = Inl ConversionUnspecified"
  by (simp add: addToBucket_def Let_def resolveBucketIndex_def)

lemma addToBucket_cases:
  assumes "addToBucket h v = Inr h'"
  shows "h' = (updateStats h v)\<lparr>ExtraHighBucket := ExtraHighBucket h + 1\<rparr> \<or>
         h' = (updateStats h v)\<lparr>ExtraLowBucket := ExtraLowBucket h + 1\<rparr> \<or>
         (\<exists>index. unat index < 3200 \<and> countInBucket (updateStats h v) index = Inr h')"
proof (cases v)
  case (Finite x)
  consider (hi) "x > 2 ^ 30" | (lo) "x < 0" | (mid) "0 \<le> x" "x \<le> 2 ^ 30"
    by linarith
  then show ?thesis
  proof cases
    case hi
    then have "f64_less (Finite (of_int highestTrackable)) v"
      by (simp add: Finite highestTrackable_eq)
    from addToBucket_high[OF this, of h] assms show ?thesis by simp
  next
    case lo
    then have "f64_less v (Finite (of_int lowestTrackable))"
      by (simp add: Finite lowestTrackable_def)
    from addToBucket_low[OF this, of h] assms show ?thesis by simp
  next
    case mid
    from addToBucket_trackable[OF mid, of h] assms show ?thesis
      by (auto simp: Finite)
  qed
next
  case PosInf
  then have "f64_less (Finite (of_int highestTrackable)) v" by (simp add: above_range_iff)
  from addToBucket_high[OF this, of h] assms show ?thesis by simp
next
  case NegInf
  then have "f64_less v (Finite (of_int lowestTrackable))" by (simp add: below_range_iff)
  from addToBucket_low[OF this, of h] assms show ?thesis by simp
next
  case NaN
  with assms show ?thesis by (simp add: addToBucket_NaN)
qed

lemma addToBucket_total:
  assumes "v \<noteq> NaN"
  shows "\<exists>h'. addToBucket h v = Inr h'"
proof (cases v)
  case (Finite x)
  consider (hi) "x > 2 ^ 30" | (lo) "x < 0" | (mid) "0 \<le> x" "x \<le> 2 ^ 30"
    by linarith
  then show ?thesis
  proof cases
    case hi
    then have "f64_less (Finite (of_int highestTrackable)) v"
      by (simp add: Finite highestTrackable_eq)
    from addToBucket_high[OF this, of h] show ?thesis by simp
  next
    case lo
    then have "f64_less v (Finite (of_int lowestTrackable))"
      by (simp add: Finite lowestTrackable_def)
    from addToBucket_low[OF this, of h] show ?thesis by simp
  next
    case mid
    from addToBucket_trackable[OF mid, of h] obtain index where b: "unat index < 3200"
      and a: "addToBucket h (Finite x) = countInBucket (updateStats h (Finite x)) index" by blast
    from countInBucket_total[OF b] a show ?thesis by (simp add: Finite)
  qed
next
  case PosInf
  then have "f64_less (Finite (of_int highestTrackable)) v" by (simp add: above_range_iff)
  from addToBucket_high[OF this, of h] show ?thesis by simp
next
  case NegInf
  then have "f64_less v (Finite (of_int lowestTrackable))" by (simp add: below_range_iff)
  from addToBucket_low[OF this, of h] show ?thesis by simp
next
  case NaN
  with assms show ?thesis by simp
qed

lemma addAll_Cons_Inr:
  assumes "addAll h (v # vs) = Inr h'"
  obtains h1 where "addToBucket h v = Inr h1" and "addAll h1 vs = Inr h'"
  using assms by (cases "addToBucket h v") simp_all

lemma countInBucket_wf:
  assumes wf: "buckets_wf h" and b: "unat index < 3200"
    and c: "countInBucket h index = Inr h'"
  shows "buckets_wf h'"
proof (cases "Buckets h = []")
  case True
  have "unat (index + 1) = Suc (unat index)"
    using unat_grow[of 0 index] b by simp
  with True c show ?thesis
    by (auto simp: countInBucket_def Let_def buckets_wf_def b
        simp del: replicate.simps list_update.simps split: if_splits)
next
  case False
  with wf have len: "length (Buckets h) = Suc (unat (LastNotZeroBucket h))"
    and fl: "FirstNotZeroBucket h \<le> LastNotZeroBucket h"
    and l: "unat (LastNotZeroBucket h) < 3200"
    by (simp_all add: buckets_wf_def)
  let ?blen = "word_of_nat (length (Buckets h)) :: 32 word"
  have "Suc (unat (LastNotZeroBucket h)) < 2 ^ 32" using l by simp
  then have "unat (of_nat (Suc (unat (LastNotZeroBucket h))) :: 32 word)
      = Suc (unat (LastNotZeroBucket h))" by (rule unat_of_nat32)
  then have ub: "unat ?blen = Suc (unat (LastNotZeroBucket h))"
    by (simp only: len)
  then have nz: "?blen \<noteq> 0" by (metis Zero_not_Suc unat_0)
  show ?thesis
  proof (cases "?blen \<le> index")
    case True
    then have gt: "Suc (unat (LastNotZeroBucket h)) \<le> unat index"
      using ub by (simp add: word_le_nat_alt)
    then have lt: "LastNotZeroBucket h < index" by (simp add: word_less_nat_alt)
    have g: "unat (index - ?blen + 1) = Suc (unat index - unat ?blen)"
      using True b by (rule unat_grow)
    have "unat (index - ?blen + 1) = Suc (unat index - Suc (unat (LastNotZeroBucket h)))"
      by (simp only: g ub)
    then have "length (Buckets h) + unat (index - ?blen + 1) = Suc (unat index)"
      using gt len by arith
    moreover have "(if index < FirstNotZeroBucket h then index else FirstNotZeroBucket h) \<le> index"
      by (simp add: not_less)
    ultimately show ?thesis using c True nz lt b
      by (auto simp: countInBucket_def Let_def buckets_wf_def simp del: of_nat_Suc split: if_splits)
  next
    case False
    then have "unat index < Suc (unat (LastNotZeroBucket h))"
      using ub by (simp add: word_le_nat_alt)
    then have le: "index \<le> LastNotZeroBucket h" by (simp add: word_le_nat_alt)
    then have nlt: "\<not> LastNotZeroBucket h < index" by simp
    have "(if index < FirstNotZeroBucket h then index else FirstNotZeroBucket h) \<le> LastNotZeroBucket h"
      using le fl by (simp add: not_less)
    then show ?thesis using c False nz nlt l len
      by (auto simp: countInBucket_def Let_def buckets_wf_def simp del: of_nat_Suc split: if_splits)
  qed
qed

lemma addToBucket_wf:
  assumes "buckets_wf h" "addToBucket h v = Inr h'"
  shows "buckets_wf h'"
proof -
  have wf: "buckets_wf (updateStats h v)" using assms(1) by (simp add: buckets_wf_def)
  from addToBucket_cases[OF assms(2)] show ?thesis
  proof (elim disjE exE conjE)
    assume "h' = (updateStats h v)\<lparr>ExtraHighBucket := ExtraHighBucket h + 1\<rparr>"
    with wf show ?thesis by (simp add: buckets_wf_def)
  next
    assume "h' = (updateStats h v)\<lparr>ExtraLowBucket := ExtraLowBucket h + 1\<rparr>"
    with wf show ?thesis by (simp add: buckets_wf_def)
  next
    fix index assume "unat index < 3200" "countInBucket (updateStats h v) index = Inr h'"
    with wf show ?thesis by (rule countInBucket_wf)
  qed
qed

lemma addAll_total: "NaN \<notin> set vs \<Longrightarrow> \<exists>h'. addAll h vs = Inr h'"
proof (induction vs arbitrary: h)
  case Nil
  show ?case by simp
next
  case (Cons v vs)
  then have "v \<noteq> NaN" by auto
  from addToBucket_total[OF this] obtain h1 where "addToBucket h v = Inr h1" by blast
  with Cons show ?case by simp
qed

lemma addAll_NaN: "NaN \<in> set vs \<Longrightarrow> addAll h vs = Inl ConversionUnspecified"
proof (induction vs arbitrary: h)
  case Nil
  then show ?case by simp
next
  case (Cons v vs)
  show ?case
  proof (cases "v = NaN")
    case True
    then show ?thesis by (simp add: addToBucket_NaN)
  next
    case False
    from addToBucket_total[OF this] obtain h1 where a: "addToBucket h v = Inr h1" by blast
    from Cons.prems False have "NaN \<in> set vs" by simp
    from Cons.IH[OF this] a show ?thesis by simp
  qed
qed

lemma addAll_wf: "buckets_wf h \<Longrightarrow> addAll h vs = Inr h' \<Longrightarrow> buckets_wf h'"
proof (induction vs arbitrary: h)
  case Nil
  then show ?case by simp
next
  case (Cons v vs)
  from Cons.prems(2) obtain h1 where a: "addToBucket h v = Inr h1" and r: "addAll h1 vs = Inr h'"
    by (rule addAll_Cons_Inr)
  from Cons.prems(1) a have "buckets_wf h1" by (rule addToBucket_wf)
  then show ?case using r by (rule Cons.IH)
qed

lemma trimzeros_total:
  assumes "buckets_wf h"
  shows "\<exists>h'. trimzeros h = Inr h'"
proof (cases "Buckets h = []")
  case True
  then show ?thesis by (simp add: trimzeros_def)
next
  case False
  with assms have len: "length (Buckets h) = Suc (unat (LastNotZeroBucket h))"
    and fl: "FirstNotZeroBucket h \<le> LastNotZeroBucket h"
    and l: "unat (LastNotZeroBucket h) < 3200"
    by (simp_all add: buckets_wf_def)
  have s: "unat (LastNotZeroBucket h + 1) = Suc (unat (LastNotZeroBucket h))"
    using unat_grow[of 0 "LastNotZeroBucket h"] l by simp
  have "unat (FirstNotZeroBucket h) \<le> unat (LastNotZeroBucket h)"
    using fl by (simp add: word_le_nat_alt)
  then show ?thesis
    by (simp add: trimzeros_def slice_def s len)
qed

lemma newHistogram_total:
  assumes "NaN \<notin> set values"
  shows "\<exists>h. newHistogram values = Inr h"
proof (cases "length values < 1")
  case True
  then show ?thesis by (simp add: newHistogram_def)
next
  case False
  from addAll_total[OF assms] obtain h where a: "addAll histogram_zero values = Inr h" by blast
  have "buckets_wf histogram_zero" by (simp add: buckets_wf_def histogram_zero_def)
  then have "buckets_wf h" using a by (rule addAll_wf)
  then obtain h' where "trimzeros h = Inr h'" using trimzeros_total by blast
  with a False show ?thesis by (simp add: newHistogram_def)
qed

lemma newHistogram_NaN:
  assumes "NaN \<in> set values"
  shows "newHistogram values = Inl ConversionUnspecified"
proof -
  from assms have "\<not> length values < 1" by (cases "values") simp_all
  with addAll_NaN[OF assms] show ?thesis by (simp add: newHistogram_def)
qed

text \<open>
  Claim C5. Let \<open>u\<close> be the ceiling of a value that is not negative, within the range of
  \<open>int32\<close>. \<open>resolveBucketIndex\<close> returns an index, and the index is \<open>u\<close> when \<open>u < 256\<close>, and
  \<open>(n << 7) + (u >> n)\<close> with \<open>n = \<lfloor>log\<^sub>2 (u >> 7)\<rfloor>\<close> when \<open>u \<ge> 256\<close>: the machine
  arithmetic of the code never wraps and computes \<open>spec_bucket_index u\<close>.
\<close>

theorem resolveBucketIndex_formula:
  assumes "0 \<le> v" and "\<lceil>v\<rceil> < 2 ^ 31"
  shows "\<exists>index. resolveBucketIndex (Finite v) = Inr index \<and> unat index = spec_bucket_index (nat \<lceil>v\<rceil>)"
proof -
  from assms(2) have "nat \<lceil>v\<rceil> < 2 ^ 31" by (rule nat_less_2p31)
  then have "spec_bucket_index (nat \<lceil>v\<rceil>) < 3200" by (rule spec_bucket_index_bound)
  then have "unat (of_nat (spec_bucket_index (nat \<lceil>v\<rceil>)) :: 32 word) = spec_bucket_index (nat \<lceil>v\<rceil>)"
    by (intro unat_of_nat32) simp
  with resolveBucketIndex_spec[OF assms] show ?thesis by simp
qed

lemma floor_log2_2: "floor_log2 2 = 1"
  by (rule floor_log2_unique) simp_all

text \<open>At 300 the index is \<open>(1 << 7) + (300 >> 1) = 278\<close>; at 50 it is 50.\<close>

theorem resolveBucketIndex_formula_witness:
  "(0::real) \<le> 300 \<and> \<lceil>300::real\<rceil> < 2 ^ 31 \<and>
   (\<exists>index. resolveBucketIndex (Finite 300) = Inr index \<and> unat index = 278) \<and>
   (\<exists>index. resolveBucketIndex (Finite 50) = Inr index \<and> unat index = 50)"
  using resolveBucketIndex_formula [of 300] resolveBucketIndex_formula [of 50]
  by (simp add: spec_bucket_index_def drop_bit_eq_div push_bit_eq_mult floor_log2_2)

text \<open>
  Claim C2. Over the trackable range the bucket index is monotone: for
  \<open>0 \<le> v1 \<le> v2 \<le> 2\<^sup>3\<^sup>0\<close> both indices are defined and the index of \<open>v1\<close> is at most the index of
  \<open>v2\<close>, as unsigned 32-bit numbers.
\<close>

theorem resolveBucketIndex_monotone:
  assumes "0 \<le> v1" and "v1 \<le> v2" and "v2 \<le> 2 ^ 30"
  shows "\<exists>i1 i2. resolveBucketIndex (Finite v1) = Inr i1 \<and> resolveBucketIndex (Finite v2) = Inr i2 \<and> i1 \<le> i2"
proof -
  from assms have r1: "0 \<le> v1" "v1 \<le> 2 ^ 30" and r2: "0 \<le> v2" "v2 \<le> 2 ^ 30" by simp_all
  from resolveBucketIndex_trackable[OF r1] obtain i1
    where 1: "resolveBucketIndex (Finite v1) = Inr i1" "unat i1 = spec_bucket_index (nat \<lceil>v1\<rceil>)" by blast
  from resolveBucketIndex_trackable[OF r2] obtain i2
    where 2: "resolveBucketIndex (Finite v2) = Inr i2" "unat i2 = spec_bucket_index (nat \<lceil>v2\<rceil>)" by blast
  have "nat \<lceil>v1\<rceil> \<le> nat \<lceil>v2\<rceil>" using assms(2) by (intro nat_mono ceiling_mono)
  then have "unat i1 \<le> unat i2" unfolding 1 2 by (rule spec_bucket_index_mono)
  then have "i1 \<le> i2" by (simp add: word_le_nat_alt)
  with 1 2 show ?thesis by blast
qed

theorem resolveBucketIndex_monotone_witness:
  "(0::real) \<le> 255.5 \<and> (255.5::real) \<le> 300 \<and> (300::real) \<le> 2 ^ 30 \<and>
   (\<exists>i1 i2. resolveBucketIndex (Finite 255.5) = Inr i1 \<and> resolveBucketIndex (Finite 300) = Inr i2 \<and> i1 \<le> i2)"
  using resolveBucketIndex_monotone [of "255.5" 300] by simp

subsection \<open>The count invariant\<close>

lemma sum_list_bump:
  fixes xs :: "32 word list"
  shows "i < length xs \<Longrightarrow> sum_list (xs[i := xs ! i + 1]) = sum_list xs + 1"
proof (induction xs arbitrary: i)
  case Nil
  then show ?case by simp
next
  case (Cons x xs)
  then show ?case by (cases i) simp_all
qed

lemma sum_list_zeros: "sum_list (replicate n (0 :: 32 word)) = 0"
  by (induction n) simp_all

lemma countInBucket_count:
  assumes "countInBucket h index = Inr h'"
  shows "sum_list (Buckets h') = sum_list (Buckets h) + 1"
    and "Count h' = Count h" and "ExtraLowBucket h' = ExtraLowBucket h"
    and "ExtraHighBucket h' = ExtraHighBucket h"
  using assms
  by (auto simp: countInBucket_def Let_def sum_list_bump sum_list_zeros
      simp del: replicate.simps list_update.simps split: if_splits)

lemma addToBucket_count:
  assumes "count_matches h" "addToBucket h v = Inr h'"
  shows "count_matches h'"
proof -
  from addToBucket_cases[OF assms(2)] show ?thesis
  proof (elim disjE exE conjE)
    assume "h' = (updateStats h v)\<lparr>ExtraHighBucket := ExtraHighBucket h + 1\<rparr>"
    with assms(1) show ?thesis by (simp add: count_matches_def)
  next
    assume "h' = (updateStats h v)\<lparr>ExtraLowBucket := ExtraLowBucket h + 1\<rparr>"
    with assms(1) show ?thesis by (simp add: count_matches_def)
  next
    fix index assume "countInBucket (updateStats h v) index = Inr h'"
    from countInBucket_count[OF this] assms(1) show ?thesis
      by (simp add: count_matches_def)
  qed
qed

lemma addAll_count: "count_matches h \<Longrightarrow> addAll h vs = Inr h' \<Longrightarrow> count_matches h'"
proof (induction vs arbitrary: h)
  case Nil
  then show ?case by simp
next
  case (Cons v vs)
  from Cons.prems(2) obtain h1 where a: "addToBucket h v = Inr h1" and r: "addAll h1 vs = Inr h'"
    by (rule addAll_Cons_Inr)
  from Cons.prems(1) a have "count_matches h1" by (rule addToBucket_count)
  then show ?case using r by (rule Cons.IH)
qed

text \<open>
  \<open>trimzeros\<close> keeps the invariant except in the branch that empties the array when both
  markers are 0.
\<close>

lemma sum_list_drop_zeros:
  fixes bs :: "32 word list"
  shows "(\<forall>i < f. i < length bs \<longrightarrow> bs ! i = 0) \<Longrightarrow> sum_list (drop f bs) = sum_list bs"
proof (induction bs arbitrary: f)
  case Nil
  then show ?case by simp
next
  case (Cons b bs)
  show ?case
  proof (cases f)
    case 0
    then show ?thesis by simp
  next
    case (Suc g)
    from Cons.prems Suc have "b = 0" by auto
    moreover have "\<forall>i < g. i < length bs \<longrightarrow> bs ! i = 0"
      using Cons.prems Suc by auto
    then have "sum_list (drop g bs) = sum_list bs" by (rule Cons.IH)
    ultimately show ?thesis using Suc by simp
  qed
qed

lemma blen_zero_iff:
  assumes "buckets_wf h"
  shows "(word_of_nat (length (Buckets h)) = (0 :: 32 word)) \<longleftrightarrow> Buckets h = []"
proof (cases "Buckets h = []")
  case True
  then show ?thesis by simp
next
  case False
  with assms have len: "length (Buckets h) = Suc (unat (LastNotZeroBucket h))"
    and l: "unat (LastNotZeroBucket h) < 3200" by (simp_all add: buckets_wf_def)
  have "length (Buckets h) < 2 ^ 32" using l by (simp only: len) simp
  then have "unat (of_nat (length (Buckets h)) :: 32 word) = length (Buckets h)"
    by (rule unat_of_nat32)
  then have "(of_nat (length (Buckets h)) :: 32 word) \<noteq> 0"
    using False by (metis length_0_conv unat_0)
  with False show ?thesis by simp
qed

lemma countInBucket_fields:
  assumes "countInBucket h index = Inr h'" and wf: "buckets_wf h"
  shows "FirstNotZeroBucket h' \<le> index"
    and "Buckets h = [] \<or> FirstNotZeroBucket h' \<le> FirstNotZeroBucket h"
    and "\<exists>n. Buckets h' = (Buckets h @ replicate n 0)[unat index := (Buckets h @ replicate n 0) ! unat index + 1]"
proof -
  show "FirstNotZeroBucket h' \<le> index"
    using assms(1) by (auto simp: countInBucket_def Let_def not_less split: if_splits)
  show "Buckets h = [] \<or> FirstNotZeroBucket h' \<le> FirstNotZeroBucket h"
    using assms(1) blen_zero_iff[OF wf]
    by (auto simp: countInBucket_def Let_def not_less split: if_splits)
  show "\<exists>n. Buckets h' = (Buckets h @ replicate n 0)[unat index := (Buckets h @ replicate n 0) ! unat index + 1]"
  proof (cases "word_of_nat (length (Buckets h)) \<le> index")
    case True
    then show ?thesis using assms(1)
      by (auto simp: countInBucket_def Let_def simp del: replicate.simps list_update.simps
          split: if_splits)
  next
    case False
    then have "Buckets h' = (Buckets h @ replicate 0 0)[unat index := (Buckets h @ replicate 0 0) ! unat index + 1]"
      using assms(1)
      by (auto simp: countInBucket_def Let_def simp del: list_update.simps split: if_splits)
    then show ?thesis by blast
  qed
qed

lemma countInBucket_leading:
  assumes wf: "buckets_wf h" and l: "leading_zeros h" and c: "countInBucket h index = Inr h'"
  shows "leading_zeros h'"
proof -
  note f = countInBucket_fields[OF c wf]
  from f(3) obtain n where b: "Buckets h' =
    (Buckets h @ replicate n 0)[unat index := (Buckets h @ replicate n 0) ! unat index + 1]" by blast
  have "Buckets h' ! i = 0" if i: "i < unat (FirstNotZeroBucket h')" "i < length (Buckets h')" for i
  proof -
    have ne: "i \<noteq> unat index" using i(1) f(1) by (simp add: word_le_nat_alt)
    have il: "i < length (Buckets h) + n" using i(2) b by simp
    have "Buckets h' ! i = (Buckets h @ replicate n 0) ! i" using ne by (simp add: b)
    also have "\<dots> = 0"
    proof (cases "i < length (Buckets h)")
      case True
      then have "Buckets h \<noteq> []" by auto
      with f(2) have "FirstNotZeroBucket h' \<le> FirstNotZeroBucket h" by simp
      with i(1) have "i < unat (FirstNotZeroBucket h)" by (simp add: word_le_nat_alt)
      with l True show ?thesis by (simp add: leading_zeros_def nth_append)
    next
      case False
      with il show ?thesis by (simp add: nth_append)
    qed
    finally show ?thesis .
  qed
  then show ?thesis by (simp add: leading_zeros_def)
qed

lemma addToBucket_leading:
  assumes "buckets_wf h" "leading_zeros h" "addToBucket h v = Inr h'"
  shows "leading_zeros h'"
proof -
  have wf: "buckets_wf (updateStats h v)" using assms(1) by (simp add: buckets_wf_def)
  have lz: "leading_zeros (updateStats h v)" using assms(2) by (simp add: leading_zeros_def)
  from addToBucket_cases[OF assms(3)] show ?thesis
  proof (elim disjE exE conjE)
    assume "h' = (updateStats h v)\<lparr>ExtraHighBucket := ExtraHighBucket h + 1\<rparr>"
    with lz show ?thesis by (simp add: leading_zeros_def)
  next
    assume "h' = (updateStats h v)\<lparr>ExtraLowBucket := ExtraLowBucket h + 1\<rparr>"
    with lz show ?thesis by (simp add: leading_zeros_def)
  next
    fix index assume "countInBucket (updateStats h v) index = Inr h'"
    with wf lz show ?thesis by (rule countInBucket_leading)
  qed
qed

lemma addAll_leading:
  "buckets_wf h \<Longrightarrow> leading_zeros h \<Longrightarrow> addAll h vs = Inr h' \<Longrightarrow> leading_zeros h'"
proof (induction vs arbitrary: h)
  case Nil
  then show ?case by simp
next
  case (Cons v vs)
  from Cons.prems(3) obtain h1 where a: "addToBucket h v = Inr h1" and r: "addAll h1 vs = Inr h'"
    by (rule addAll_Cons_Inr)
  from Cons.prems(1) a have "buckets_wf h1" by (rule addToBucket_wf)
  moreover from Cons.prems(1,2) a have "leading_zeros h1" by (rule addToBucket_leading)
  ultimately show ?case using r by (rule Cons.IH)
qed

lemma trimzeros_count:
  assumes wf: "buckets_wf h" and lz: "leading_zeros h" and cm: "count_matches h"
    and t: "trimzeros h = Inr h'"
  shows "count_matches h' \<or>
         (FirstNotZeroBucket h' = 0 \<and> LastNotZeroBucket h' = 0 \<and> Buckets h \<noteq> [])"
proof (cases "Buckets h = [] \<or> Count h < 1")
  case True
  with t have "h' = h" by (auto simp: trimzeros_def)
  with cm show ?thesis by simp
next
  case False
  then have ne: "Buckets h \<noteq> []" and cnt: "\<not> Count h < 1" by simp_all
  with wf have len: "length (Buckets h) = Suc (unat (LastNotZeroBucket h))"
    and fl: "FirstNotZeroBucket h \<le> LastNotZeroBucket h"
    and l: "unat (LastNotZeroBucket h) < 3200"
    by (simp_all add: buckets_wf_def)
  show ?thesis
  proof (cases "FirstNotZeroBucket h = 0 \<and> LastNotZeroBucket h = 0")
    case True
    with t ne cnt have "h' = h\<lparr>Buckets := []\<rparr>" by (auto simp: trimzeros_def)
    with True ne show ?thesis by simp
  next
    case False
    have s: "unat (LastNotZeroBucket h + 1) = Suc (unat (LastNotZeroBucket h))"
      using unat_grow[of 0 "LastNotZeroBucket h"] l by simp
    have le: "unat (FirstNotZeroBucket h) \<le> unat (LastNotZeroBucket h)"
      using fl by (simp add: word_le_nat_alt)
    let ?f = "unat (FirstNotZeroBucket h)"
    have sl: "slice (Buckets h) ?f (unat (LastNotZeroBucket h + 1)) = Inr (drop ?f (Buckets h))"
      using le by (simp add: slice_def s len)
    have h': "h' = h\<lparr>Buckets := drop ?f (Buckets h)\<rparr>"
      using t ne cnt False sl by (auto simp: trimzeros_def)
    have "sum_list (drop ?f (Buckets h)) = sum_list (Buckets h)"
      using lz by (intro sum_list_drop_zeros) (simp add: leading_zeros_def)
    with cm h' show ?thesis by (simp add: count_matches_def)
  qed
qed

lemma newHistogram_count:
  assumes "newHistogram values = Inr h"
  shows "count_matches h \<or> (FirstNotZeroBucket h = 0 \<and> LastNotZeroBucket h = 0)"
proof (cases "length values < 1")
  case True
  with assms have "h = histogram_zero" by (simp add: newHistogram_def)
  then show ?thesis by (simp add: histogram_zero_def)
next
  case False
  with assms obtain g where a: "addAll histogram_zero values = Inr g" and t: "trimzeros g = Inr h"
    by (auto simp: newHistogram_def split: sum.splits)
  have "buckets_wf histogram_zero" "leading_zeros histogram_zero" "count_matches histogram_zero"
    by (simp_all add: buckets_wf_def leading_zeros_def count_matches_def histogram_zero_def)
  then have "buckets_wf g" "leading_zeros g" "count_matches g"
    using a by (blast intro: addAll_wf addAll_leading addAll_count)+
  from trimzeros_count[OF this t] show ?thesis by blast
qed

lemma resolveBucketIndex_0: "resolveBucketIndex (Finite 0) = Inr 0"
  by (simp add: resolveBucketIndex_def word_sle_eq)

text \<open>
  Claim C1. The histogram of the single value 0 has \<open>Count = 1\<close>, both overflow counters 0
  and no bucket: the sample was counted in bucket 0, and \<open>trimzeros\<close> drops that bucket
  because both markers are 0. So after \<open>newHistogram\<close> the count is not the sum of the
  overflow counters and the buckets. Before \<open>trimzeros\<close> it is (lemma \<open>addAll_count\<close>), and
  after it as well unless both markers are 0 (lemma \<open>newHistogram_count\<close>).
\<close>

theorem newHistogram_single_zero:
  "\<exists>h. newHistogram [Finite 0] = Inr h \<and> Count h = 1 \<and> ExtraLowBucket h = 0 \<and>
     ExtraHighBucket h = 0 \<and> Buckets h = [] \<and> \<not> count_matches h"
  by (simp add: newHistogram_def addToBucket_def updateStats_def countInBucket_def
      trimzeros_def histogram_zero_def highestTrackable_eq lowestTrackable_def
      resolveBucketIndex_0 count_matches_def Let_def)

text \<open>
  Every value but NaN is handled. A value above \<open>highestTrackable\<close>, the positive infinity
  included, is counted in \<open>ExtraHighBucket\<close>, and a negative value, the negative infinity
  included, in \<open>ExtraLowBucket\<close>; in both cases the array of buckets and the two markers stay
  as they were. \<open>newHistogram\<close> returns a histogram exactly for the lists without NaN
  (lemmas \<open>newHistogram_total\<close> and \<open>newHistogram_NaN\<close>).
\<close>

lemma addToBucket_diverts:
  assumes "v \<noteq> NaN"
  shows "\<exists>h'. addToBucket h v = Inr h' \<and>
     (f64_less (Finite (of_int highestTrackable)) v \<longrightarrow>
        ExtraHighBucket h' = ExtraHighBucket h + 1 \<and> ExtraLowBucket h' = ExtraLowBucket h \<and>
        Buckets h' = Buckets h \<and> FirstNotZeroBucket h' = FirstNotZeroBucket h \<and>
        LastNotZeroBucket h' = LastNotZeroBucket h) \<and>
     (f64_less v (Finite (of_int lowestTrackable)) \<longrightarrow>
        ExtraLowBucket h' = ExtraLowBucket h + 1 \<and> ExtraHighBucket h' = ExtraHighBucket h \<and>
        Buckets h' = Buckets h \<and> FirstNotZeroBucket h' = FirstNotZeroBucket h \<and>
        LastNotZeroBucket h' = LastNotZeroBucket h)"
proof -
  from addToBucket_total[OF assms] obtain h' where a: "addToBucket h v = Inr h'" by blast
  have hi: "ExtraHighBucket h' = ExtraHighBucket h + 1 \<and> ExtraLowBucket h' = ExtraLowBucket h \<and>
        Buckets h' = Buckets h \<and> FirstNotZeroBucket h' = FirstNotZeroBucket h \<and>
        LastNotZeroBucket h' = LastNotZeroBucket h"
    if "f64_less (Finite (of_int highestTrackable)) v"
    using addToBucket_high[OF that, of h] a by auto
  have lo: "ExtraLowBucket h' = ExtraLowBucket h + 1 \<and> ExtraHighBucket h' = ExtraHighBucket h \<and>
        Buckets h' = Buckets h \<and> FirstNotZeroBucket h' = FirstNotZeroBucket h \<and>
        LastNotZeroBucket h' = LastNotZeroBucket h"
    if "f64_less v (Finite (of_int lowestTrackable))"
    using addToBucket_low[OF that, of h] a by auto
  from a hi lo show ?thesis by blast
qed

lemma addToBucket_diverts_examples:
  "(\<exists>h'. addToBucket histogram_zero (Finite (2 ^ 31)) = Inr h' \<and>
      ExtraHighBucket h' = 1 \<and> ExtraLowBucket h' = 0 \<and> Buckets h' = []) \<and>
   (\<exists>h'. addToBucket histogram_zero (Finite (- 1)) = Inr h' \<and>
      ExtraLowBucket h' = 1 \<and> ExtraHighBucket h' = 0 \<and> Buckets h' = [])"
  using addToBucket_diverts [of "Finite (2 ^ 31)" histogram_zero]
    addToBucket_diverts [of "Finite (- 1)" histogram_zero]
  by (auto simp: highestTrackable_eq lowestTrackable_def histogram_zero_def)

lemma countInBucket_least_int32:
  "\<exists>h'. countInBucket (updateStats histogram_zero NaN) 2147483648 = Inr h' \<and>
     length (Buckets h') = 2147483649 \<and> ExtraLowBucket h' = 0 \<and> ExtraHighBucket h' = 0"
proof -
  have "unat (2147483648 - 0 + 1 :: 32 word) = 2147483649" by simp
  then show ?thesis
    by (simp add: countInBucket_def Let_def histogram_zero_def
        del: replicate.simps list_update.simps)
qed

text \<open>
  Claim C9. The claim fails at NaN. Every comparison with NaN is false, so NaN passes both
  range tests of \<open>addToBucket\<close>: it is not diverted to an overflow counter and reaches
  \<open>int32(math.Ceil(val))\<close> in \<open>resolveBucketIndex\<close>, a conversion whose result Go leaves to the
  implementation. So \<open>addToBucket\<close> and \<open>newHistogram\<close> do not yield a histogram that the
  language determines. Where the conversion yields the least \<open>int32\<close>, as on amd64, the
  index is \<open>2\<^sup>3\<^sup>1\<close>, and counting at that index in the empty histogram grows the array of
  buckets to \<open>2\<^sup>3\<^sup>1 + 1\<close> entries, with both overflow counters still 0.
\<close>

theorem addToBucket_NaN_not_diverted:
  "\<not> f64_less (Finite (of_int highestTrackable)) NaN \<and>
   \<not> f64_less NaN (Finite (of_int lowestTrackable)) \<and>
   addToBucket h NaN = Inl ConversionUnspecified \<and>
   newHistogram [NaN] = Inl ConversionUnspecified \<and>
   (\<exists>h'. countInBucket (updateStats histogram_zero NaN) 2147483648 = Inr h' \<and>
      length (Buckets h') = 2147483649 \<and> ExtraLowBucket h' = 0 \<and> ExtraHighBucket h' = 0)"
  using countInBucket_least_int32
  by (simp add: addToBucket_NaN newHistogram_NaN)

section \<open>Properties of the push client\<close>

lemma snappy_MaxEncodedLen_small:
  assumes "0 \<le> n" "n \<le> b100KiB"
  shows "0 \<le> snappy_MaxEncodedLen n"
proof -
  have n: "n \<le> 102400" using assms(2) by (simp add: b100KiB_def)
  then have m: "n mod 2 ^ 64 = n" using assms(1) by simp
  have "n div 6 \<le> n" using assms(1) by simp
  then show ?thesis using n assms(1) unfolding snappy_MaxEncodedLen_def m Let_def
    by simp
qed

lemma newRequestBody_large:
  assumes "proto_Marshal ev data = Inr b" "int (length b) > b100KiB"
  shows "newRequestBody ev data = (Inl (TooLargeForCloud (length b)), [Marshal data])"
  using assms by (simp add: newRequestBody_def)

lemma newRequestBody_small:
  assumes "proto_Marshal ev data = Inr b" "int (length b) \<le> b100KiB"
  shows "newRequestBody ev data = (Inr (snappy_Encode ev b), [Marshal data, SnappyEncode b])"
proof -
  have "0 \<le> snappy_MaxEncodedLen (int (length b))"
    using assms(2) by (intro snappy_MaxEncodedLen_small) simp_all
  then show ?thesis using assms by (simp add: newRequestBody_def)
qed

text \<open>
  Claim C4, as amended. Let the batch serialise to \<open>b\<close>. If \<open>b\<close> is longer than 100 KiB, \<open>Push\<close>
  returns an error and the HTTP transport is not called. If \<open>b\<close> is at most 100 KiB long and
  the reference ID is not empty, \<open>b\<close> is compressed with Snappy; then, when the URL of the
  request parses, the POST request with the compressed body is handed to the transport, and
  when it does not, \<open>Push\<close> returns the parser's error without calling the transport.
\<close>

theorem Push_size_cap:
  assumes "proto_Marshal ev samples = Inr b"
  shows "(int (length b) > b100KiB \<longrightarrow>
            (\<exists>e. fst (Push ev mc refID samples) = Some e) \<and>
            \<not> list_ex is_HttpDo (snd (Push ev mc refID samples))) \<and>
         (int (length b) \<le> b100KiB \<and> refID \<noteq> [] \<longrightarrow>
            (case url_Parse ev (host mc @ ''/v2/metrics/'' @ refID) of
               None \<Rightarrow>
                 (\<exists>req rest. snd (Push ev mc refID samples)
                      = [Marshal samples, SnappyEncode b, HttpDo req] @ rest \<and>
                    Method req = ''POST'' \<and>
                    URL req = host mc @ ''/v2/metrics/'' @ refID \<and>
                    Body req = snappy_Encode ev b)
             | Some err \<Rightarrow>
                 Push ev mc refID samples
                   = (Some (RequestInvalid err), [Marshal samples, SnappyEncode b])))"
proof (intro conjI impI)
  assume big: "int (length b) > b100KiB"
  show "\<exists>e. fst (Push ev mc refID samples) = Some e"
    using newRequestBody_large[OF assms big] by (simp add: Push_def)
  show "\<not> list_ex is_HttpDo (snd (Push ev mc refID samples))"
    using newRequestBody_large[OF assms big] by (simp add: Push_def)
next
  assume "int (length b) \<le> b100KiB \<and> refID \<noteq> []"
  then have small: "int (length b) \<le> b100KiB" and ref: "refID \<noteq> []" by simp_all
  note nb = newRequestBody_small[OF assms small]
  show "case url_Parse ev (host mc @ ''/v2/metrics/'' @ refID) of
               None \<Rightarrow>
                 (\<exists>req rest. snd (Push ev mc refID samples)
                      = [Marshal samples, SnappyEncode b, HttpDo req] @ rest \<and>
                    Method req = ''POST'' \<and>
                    URL req = host mc @ ''/v2/metrics/'' @ refID \<and>
                    Body req = snappy_Encode ev b)
             | Some err \<Rightarrow>
                 Push ev mc refID samples
                   = (Some (RequestInvalid err), [Marshal samples, SnappyEncode b])"
  proof (cases "url_Parse ev (host mc @ ''/v2/metrics/'' @ refID)")
    case (Some err)
    then show ?thesis using nb ref
      by (simp add: Push_def http_NewRequestWithContext_def)
  next
    case None
    then show ?thesis using nb ref
      by (auto simp: Push_def http_NewRequestWithContext_def Header_Set_def Let_def
          split: sum.splits)
  qed
qed

text \<open>A batch of 102401 bytes and a batch of 3 bytes, pushed for the test run \<open>run1\<close>.\<close>

theorem Push_size_cap_witness:
  "proto_Marshal (example_env 102401) \<lparr>Metrics = []\<rparr> = Inr (replicate 102401 0) \<and>
   int (length (replicate 102401 (0::byte))) > b100KiB \<and>
   (\<exists>e. fst (Push (example_env 102401) example_client ''run1'' \<lparr>Metrics = []\<rparr>) = Some e) \<and>
   \<not> list_ex is_HttpDo (snd (Push (example_env 102401) example_client ''run1'' \<lparr>Metrics = []\<rparr>)) \<and>
   proto_Marshal (example_env 3) \<lparr>Metrics = []\<rparr> = Inr (replicate 3 0) \<and>
   int (length (replicate 3 (0::byte))) \<le> b100KiB \<and> ''run1'' \<noteq> [] \<and>
   url_Parse (example_env 3) (host example_client @ ''/v2/metrics/'' @ ''run1'') = None \<and>
   (\<exists>req rest. snd (Push (example_env 3) example_client ''run1'' \<lparr>Metrics = []\<rparr>)
        = [Marshal \<lparr>Metrics = []\<rparr>, SnappyEncode (replicate 3 0), HttpDo req] @ rest)"
  using Push_size_cap [of "example_env 102401" "\<lparr>Metrics = []\<rparr>" "replicate 102401 0" example_client "''run1''"]
    Push_size_cap [of "example_env 3" "\<lparr>Metrics = []\<rparr>" "replicate 3 0" example_client "''run1''"]
  by (simp add: example_env_def example_client_def b100KiB_def) blast

text \<open>
  Claim C4 as stated fails: with a reference ID that is a line feed the URL does not parse,
  and a batch of 3 bytes is compressed but never posted.
\<close>

theorem Push_small_batch_without_post:
  "proto_Marshal (example_env 3) \<lparr>Metrics = []\<rparr> = Inr (replicate 3 0) \<and>
   int (length (replicate 3 (0::byte))) \<le> b100KiB \<and>
   [CHR 0x0A] \<noteq> [] \<and>
   \<not> list_ex is_HttpDo (snd (Push (example_env 3) example_client [CHR 0x0A] \<lparr>Metrics = []\<rparr>))"
  by (simp add: example_env_def example_client_def b100KiB_def Push_def newRequestBody_def
      snappy_MaxEncodedLen_def http_NewRequestWithContext_def Let_def)

text \<open>
  Claim C6. \<open>NewMetricsClient\<close> returns an error, and so no client, when the host or the token
  is empty. \<open>Push\<close> with an empty reference ID returns an error and calls nothing: neither
  the encoder nor the transport.
\<close>

theorem client_requires_host_token_referenceID:
  "(host' = [] \<or> token' = [] \<longrightarrow> (\<exists>e. NewMetricsClient version host' token' = Inl e)) \<and>
   Push ev mc [] samples = (Some ReferenceIDRequired, [])"
  by (simp add: NewMetricsClient_def Push_def)

theorem client_requires_host_token_referenceID_witness:
  "NewMetricsClient ''0.45.0'' [] ''secret'' = Inl HostRequired \<and>
   NewMetricsClient ''0.45.0'' ''https://ingest.example'' [] = Inl TokenRequired \<and>
   Push (example_env 3) example_client [] \<lparr>Metrics = []\<rparr> = (Some ReferenceIDRequired, [])"
  using client_requires_host_token_referenceID
          [of "[]" "''secret''" "''0.45.0''" "example_env 3" example_client "\<lparr>Metrics = []\<rparr>"]
        client_requires_host_token_referenceID
          [of "''https://ingest.example''" "[]" "''0.45.0''" "example_env 3" example_client "\<lparr>Metrics = []\<rparr>"]
  by (simp add: NewMetricsClient_def)

section \<open>Properties of the flush cycle\<close>

text \<open>
  Claim C10. With an empty reference ID \<open>flushMetrics\<close> returns at once: the output, with its
  buffer and its \<open>activeSeries\<close>, is unchanged, and nothing is called.
\<close>

theorem flushMetrics_without_referenceID:
  "referenceID out = [] \<Longrightarrow> flushMetrics ev out = Inr (out, [])"
  by (simp add: flushMetrics_def)

theorem flushMetrics_without_referenceID_witness:
  "referenceID (example_output [] [[example_sample (example_metric 1 Counter) 42]]) = [] \<and>
   flushMetrics (example_env 3) (example_output [] [[example_sample (example_metric 1 Counter) 42]])
     = Inr (example_output [] [[example_sample (example_metric 1 Counter) 42]], [])"
  using flushMetrics_without_referenceID
          [of "example_output [] [[example_sample (example_metric 1 Counter) 42]]" "example_env 3"]
  by (simp add: example_output_def)

subsection \<open>Encoding\<close>

lemma MapAsProto_filter:
  "MapAsProto st as refID =
     map (\<lambda>(ts, samples). seriesAsProto refID ts samples) (filter not_Trend (entries st as))"
proof -
  have "concat (map (\<lambda>(ts, samples). if Type (Metric ts) = Trend then []
                     else [seriesAsProto refID ts samples]) xs)
        = map (\<lambda>(ts, samples). seriesAsProto refID ts samples) (filter not_Trend xs)" for xs
    by (induction xs) (auto simp: not_Trend_def)
  note eq = this [of "entries st as"]
  show ?thesis
  proof (cases "entries st as = []")
    case True
    then show ?thesis by (simp add: MapAsProto_def)
  next
    case False
    then have "\<not> length (entries st as) < 1" by (cases "entries st as") simp_all
    then show ?thesis by (simp only: MapAsProto_def if_False eq)
  qed
qed

text \<open>
  Claim C3, as amended. \<open>MapAsProto\<close> skips every time series of a Trend metric: its output
  is one wire time series for each time series that is not of a Trend metric, in order, and
  nothing else. Such a wire time series has the labels \<open>__name__\<close> and \<open>test_run_id\<close> followed by
  the tags, and one value per sample, in order: for a Counter the time and the value of the
  sample; for a Gauge the time and the value as last, min, max and avg; for a Rate the time,
  the nonzero count 1 if the value is not zero and 0 otherwise, and the total count 1. So
  every wire time series of the output carries as many counter, gauge or rate values as
  the series has samples; no histogram value is emitted, and no sample of a Trend series is
  emitted through the per-sample path. When every time series is of a Trend metric the
  output is empty.
\<close>

theorem MapAsProto_skips_Trend:
  "MapAsProto st as refID =
     map (\<lambda>(ts, samples).
            \<lparr>Labels =
               Label ''__name__'' (Name (Metric ts)) # Label ''test_run_id'' refID #
               map (\<lambda>(ktag, vtag). Label ktag vtag) (Tags ts),
             pb_Samples =
               (if Type (Metric ts) = Counter
                then CounterSamples (map (\<lambda>s. CounterValue (Time s) (Value s)) samples)
                else if Type (Metric ts) = Gauge
                then GaugeSamples
                       (map (\<lambda>s. GaugeValue (Time s) (Value s) (Value s) (Value s) (Value s))
                          samples)
                else RateSamples
                       (map (\<lambda>s. RateValue (Time s) (if Value s = Finite 0 then 0 else 1) 1)
                          samples))\<rparr>)
       (filter not_Trend (entries st as)) \<and>
   list_all2 (\<lambda>p e. value_count (pb_Samples p) = length (snd e))
     (MapAsProto st as refID) (filter not_Trend (entries st as)) \<and>
   list_all (\<lambda>p. is_per_sample (pb_Samples p)) (MapAsProto st as refID) \<and>
   (list_all (\<lambda>e. \<not> not_Trend e) (entries st as) \<longrightarrow> MapAsProto st as refID = [])"
proof (intro conjI impI)
  have series: "seriesAsProto refID ts samples =
            \<lparr>Labels =
               Label ''__name__'' (Name (Metric ts)) # Label ''test_run_id'' refID #
               map (\<lambda>(ktag, vtag). Label ktag vtag) (Tags ts),
             pb_Samples =
               (if Type (Metric ts) = Counter
                then CounterSamples (map (\<lambda>s. CounterValue (Time s) (Value s)) samples)
                else if Type (Metric ts) = Gauge
                then GaugeSamples
                       (map (\<lambda>s. GaugeValue (Time s) (Value s) (Value s) (Value s) (Value s))
                          samples)
                else RateSamples
                       (map (\<lambda>s. RateValue (Time s) (if Value s = Finite 0 then 0 else 1) 1)
                          samples))\<rparr>"
    if "not_Trend (ts, samples)" for ts samples
    using that by (cases "Type (Metric ts)") (simp_all add: seriesAsProto_def not_Trend_def)
  show "MapAsProto st as refID =
     map (\<lambda>(ts, samples).
            \<lparr>Labels =
               Label ''__name__'' (Name (Metric ts)) # Label ''test_run_id'' refID #
               map (\<lambda>(ktag, vtag). Label ktag vtag) (Tags ts),
             pb_Samples =
               (if Type (Metric ts) = Counter
                then CounterSamples (map (\<lambda>s. CounterValue (Time s) (Value s)) samples)
                else if Type (Metric ts) = Gauge
                then GaugeSamples
                       (map (\<lambda>s. GaugeValue (Time s) (Value s) (Value s) (Value s) (Value s))
                          samples)
                else RateSamples
                       (map (\<lambda>s. RateValue (Time s) (if Value s = Finite 0 then 0 else 1) 1)
                          samples))\<rparr>)
       (filter not_Trend (entries st as))"
    unfolding MapAsProto_filter
    by (rule map_cong [OF refl]) (auto simp: series)
  show "list_all2 (\<lambda>p e. value_count (pb_Samples p) = length (snd e))
     (MapAsProto st as refID) (filter not_Trend (entries st as))"
    unfolding MapAsProto_filter
    by (auto simp: list_all2_map1 list_all2_same series)
  show "list_all (\<lambda>p. is_per_sample (pb_Samples p)) (MapAsProto st as refID)"
    unfolding MapAsProto_filter
    by (auto simp: list_all_iff series is_per_sample_def)
  assume "list_all (\<lambda>e. \<not> not_Trend e) (entries st as)"
  then have "filter not_Trend (entries st as) = []"
    by (simp add: list_all_iff filter_empty_conv)
  then show "MapAsProto st as refID = []" by (simp add: MapAsProto_filter)
qed

text \<open>A map with a Trend series, and maps with a Counter, a Gauge and a Rate series.\<close>

theorem MapAsProto_skips_Trend_witness:
  "list_all (\<lambda>e. \<not> not_Trend e) (entries example_store \<lparr>Samples = Some 0\<rparr>) \<and>
   MapAsProto example_store \<lparr>Samples = Some 0\<rparr> ''fake-test-id'' = [] \<and>
   MapAsProto example_store \<lparr>Samples = Some 1\<rparr> ''fake-test-id'' =
     [\<lparr>Labels = [Label ''__name__'' ''metric'', Label ''test_run_id'' ''fake-test-id'',
                  Label ''key1'' ''val1''],
       pb_Samples = CounterSamples [CounterValue 0 (Finite 42), CounterValue 0 (Finite 42)]\<rparr>] \<and>
   MapAsProto example_store \<lparr>Samples = Some 2\<rparr> ''fake-test-id'' =
     [\<lparr>Labels = [Label ''__name__'' ''metric'', Label ''test_run_id'' ''fake-test-id'',
                  Label ''key1'' ''val1''],
       pb_Samples =
         GaugeSamples [GaugeValue 0 (Finite 42) (Finite 42) (Finite 42) (Finite 42),
                       GaugeValue 0 (Finite 7) (Finite 7) (Finite 7) (Finite 7)]\<rparr>] \<and>
   MapAsProto example_store \<lparr>Samples = Some 3\<rparr> ''fake-test-id'' =
     [\<lparr>Labels = [Label ''__name__'' ''metric'', Label ''test_run_id'' ''fake-test-id'',
                  Label ''key1'' ''val1''],
       pb_Samples = RateSamples [RateValue 0 1 1, RateValue 0 0 1]\<rparr>]"
  using MapAsProto_skips_Trend [of example_store "\<lparr>Samples = Some 0\<rparr>" "''fake-test-id''"]
    MapAsProto_skips_Trend [of example_store "\<lparr>Samples = Some 1\<rparr>" "''fake-test-id''"]
    MapAsProto_skips_Trend [of example_store "\<lparr>Samples = Some 2\<rparr>" "''fake-test-id''"]
    MapAsProto_skips_Trend [of example_store "\<lparr>Samples = Some 3\<rparr>" "''fake-test-id''"]
  by (simp add: example_store_def entries_def not_Trend_def example_sample_def
      example_metric_def)

text \<open>
  Claim C3 as stated fails: for a Trend time series with two samples the wire output is
  empty, where the claim expects one histogram value.
\<close>

theorem MapAsProto_Trend_no_histogram:
  "entries example_store \<lparr>Samples = Some 0\<rparr> =
     [(TimeSeries (example_sample (example_metric 1 Trend) 42),
         [example_sample (example_metric 1 Trend) 42, example_sample (example_metric 1 Trend) 300])] \<and>
   Type (Metric (TimeSeries (example_sample (example_metric 1 Trend) 42))) = Trend \<and>
   MapAsProto example_store \<lparr>Samples = Some 0\<rparr> ''fake-test-id'' = []"
  by (simp add: example_store_def entries_def example_sample_def example_metric_def
      MapAsProto_def)

subsection \<open>Collecting samples\<close>

lemma update_absent: "map_of al k = None \<Longrightarrow> AList.update k v al = al @ [(k, v)]"
  by (induction al) (auto split: if_splits)

lemma maps_allocated_iff:
  "maps_allocated out \<longleftrightarrow>
     (\<forall>(m, a) \<in> set (activeSeries out). \<exists>r. Samples a = Some r \<and> r < length (mapStore out))"
  by (auto simp: maps_allocated_def list_all_iff split: option.splits)

lemma maps_allocated_lookup:
  assumes "maps_allocated out" "map_of (activeSeries out) m = Some a"
  shows "\<exists>r. Samples a = Some r \<and> r < length (mapStore out)"
  using assms map_of_SomeD[OF assms(2)] by (auto simp: maps_allocated_iff)

lemma AddSample_allocated:
  assumes "Samples a = Some r" "r < length st"
  shows "\<exists>st'. AddSample st a s = Inr st' \<and> length st' = length st"
  using assms by (simp add: AddSample_def split: option.splits)

lemma addSamples_step_present:
  assumes "map_of (activeSeries out) (Metric (TimeSeries s)) = Some a"
    and "AddSample (mapStore out) a s = Inr st"
  shows "addSamples out (s # ss) = addSamples (out\<lparr>mapStore := st\<rparr>) ss"
  using assms by simp

lemma addSamples_step_absent:
  assumes "map_of (activeSeries out) (Metric (TimeSeries s)) = None"
  shows "addSamples out (s # ss) =
     addSamples (out\<lparr>activeSeries := activeSeries out @
                      [(Metric (TimeSeries s), \<lparr>Samples = Some (length (mapStore out))\<rparr>)],
                    mapStore := mapStore out @ [[(TimeSeries s, [s])]]\<rparr>) ss"
  using assms by (simp add: Let_def AddSample_def update_absent)

lemma extends_trans: "extends a b \<Longrightarrow> extends b c \<Longrightarrow> extends a c"
  by (simp add: extends_def)

lemma addSamples_total:
  assumes "maps_allocated out"
  shows "\<exists>out'. addSamples out ss = Inr out' \<and> extends out out' \<and>
           (\<forall>s \<in> set ss. map_of (activeSeries out') (Metric (TimeSeries s)) \<noteq> None)"
  using assms
proof (induction ss arbitrary: out)
  case Nil
  then show ?case by (simp add: extends_def)
next
  case (Cons s ss)
  let ?m = "Metric (TimeSeries s)"
  show ?case
  proof (cases "map_of (activeSeries out) ?m")
    case (Some a)
    from maps_allocated_lookup[OF Cons.prems Some] obtain r
      where r: "Samples a = Some r" "r < length (mapStore out)" by blast
    from AddSample_allocated[OF r] obtain st
      where st: "AddSample (mapStore out) a s = Inr st" "length st = length (mapStore out)" by blast
    let ?o1 = "out\<lparr>mapStore := st\<rparr>"
    have al: "maps_allocated ?o1" using Cons.prems st(2) by (simp add: maps_allocated_iff)
    from Cons.IH[OF al] obtain out' where o': "addSamples ?o1 ss = Inr out'" "extends ?o1 out'"
      "\<forall>s \<in> set ss. map_of (activeSeries out') (Metric (TimeSeries s)) \<noteq> None" by blast
    have "extends out out'" using o'(2) by (simp add: extends_def)
    moreover have "map_of (activeSeries out') ?m \<noteq> None"
      using o'(2) Some by (simp add: extends_def)
    ultimately show ?thesis
      using o' by (simp only: addSamples_step_present[OF Some st(1)]) auto
  next
    case None
    let ?o1 = "out\<lparr>activeSeries := activeSeries out @
                      [(?m, \<lparr>Samples = Some (length (mapStore out))\<rparr>)],
                    mapStore := mapStore out @ [[(TimeSeries s, [s])]]\<rparr>"
    have al: "maps_allocated ?o1" using Cons.prems
      by (auto simp: maps_allocated_iff less_Suc_eq)
    from Cons.IH[OF al] obtain out' where o': "addSamples ?o1 ss = Inr out'" "extends ?o1 out'"
      "\<forall>s \<in> set ss. map_of (activeSeries out') (Metric (TimeSeries s)) \<noteq> None" by blast
    have keep: "map_of (activeSeries ?o1) m = Some a" if "map_of (activeSeries out) m = Some a" for m a
      using that by (simp add: map_add_Some_iff)
    have "extends out out'" using o'(2) keep by (simp add: extends_def)
    moreover have "map_of (activeSeries ?o1) ?m \<noteq> None" using None by (simp add: map_add_Some_iff)
    then have "map_of (activeSeries out') ?m \<noteq> None"
      using o'(2) unfolding extends_def by blast
    ultimately show ?thesis
      using o' by (simp only: addSamples_step_absent[OF None]) auto
  qed
qed

lemma addContainers_total:
  assumes "maps_allocated out"
  shows "\<exists>out'. addContainers out cs = Inr out' \<and> extends out out' \<and>
           (\<forall>s \<in> set (concat cs). map_of (activeSeries out') (Metric (TimeSeries s)) \<noteq> None)"
  using assms
proof (induction cs arbitrary: out)
  case Nil
  then show ?case by (simp add: extends_def)
next
  case (Cons c cs)
  from addSamples_total[OF Cons.prems] obtain o1 where o1: "addSamples out c = Inr o1"
    "extends out o1" "\<forall>s \<in> set c. map_of (activeSeries o1) (Metric (TimeSeries s)) \<noteq> None"
    by blast
  then have al: "maps_allocated o1" by (simp add: extends_def)
  from Cons.IH[OF al] obtain out' where o': "addContainers o1 cs = Inr out'" "extends o1 out'"
    "\<forall>s \<in> set (concat cs). map_of (activeSeries out') (Metric (TimeSeries s)) \<noteq> None" by blast
  have e: "extends out out'" using o1(2) o'(2) by (rule extends_trans)
  have "\<forall>s \<in> set c. map_of (activeSeries out') (Metric (TimeSeries s)) \<noteq> None"
    using o1(3) o'(2) unfolding extends_def by fastforce
  with o' e o1(1) show ?case by auto
qed

lemma collectSamples_total:
  assumes "maps_allocated out"
  shows "\<exists>out'. collectSamples out = Inr (buffer out \<noteq> [], out') \<and> buffer out' = [] \<and>
           extends (out\<lparr>buffer := []\<rparr>) out' \<and>
           (\<forall>s \<in> set (concat (buffer out)).
              map_of (activeSeries out') (Metric (TimeSeries s)) \<noteq> None)"
proof (cases "buffer out = []")
  case True
  then show ?thesis using assms
    by (simp add: collectSamples_def GetBufferedSamples_def extends_def maps_allocated_iff)
next
  case False
  have al: "maps_allocated (out\<lparr>buffer := []\<rparr>)" using assms by (simp add: maps_allocated_iff)
  from addContainers_total[OF al, of "buffer out"] obtain out'
    where o': "addContainers (out\<lparr>buffer := []\<rparr>) (buffer out) = Inr out'"
      "extends (out\<lparr>buffer := []\<rparr>) out'"
      "\<forall>s \<in> set (concat (buffer out)). map_of (activeSeries out') (Metric (TimeSeries s)) \<noteq> None"
    by blast
  have "buffer out' = []" using o'(2) by (simp add: extends_def)
  moreover have "\<not> length (buffer out) < 1" using False by (cases "buffer out") simp_all
  ultimately show ?thesis using o' False
    by (simp add: collectSamples_def GetBufferedSamples_def)
qed

text \<open>
  Claim C8, as amended. When every entry of \<open>activeSeries\<close> refers to a map, \<open>collectSamples\<close>
  returns, with the buffer drained, and its result is true if and only if the drained buffer
  held at least one sample container: it is false when nothing was drained and true
  whenever at least one sample was added to the aggregator.
\<close>

theorem collectSamples_reports_containers:
  assumes "maps_allocated out"
  shows "\<exists>hasOne out'. collectSamples out = Inr (hasOne, out') \<and>
           (hasOne \<longleftrightarrow> buffer out \<noteq> []) \<and>
           (concat (buffer out) \<noteq> [] \<longrightarrow> hasOne) \<and>
           buffer out' = []"
proof -
  from collectSamples_total[OF assms] obtain out'
    where "collectSamples out = Inr (buffer out \<noteq> [], out')" "buffer out' = []" by blast
  moreover have "concat (buffer out) \<noteq> [] \<longrightarrow> buffer out \<noteq> []" by auto
  ultimately show ?thesis by blast
qed

theorem collectSamples_reports_containers_witness:
  "maps_allocated (example_output ''run1'' [[example_sample (example_metric 1 Counter) 42]]) \<and>
   concat (buffer (example_output ''run1'' [[example_sample (example_metric 1 Counter) 42]])) \<noteq> [] \<and>
   (\<exists>out'. collectSamples (example_output ''run1'' [[example_sample (example_metric 1 Counter) 42]])
      = Inr (True, out') \<and> buffer out' = [])"
  using collectSamples_reports_containers
          [of "example_output ''run1'' [[example_sample (example_metric 1 Counter) 42]]"]
  by (auto simp: example_output_def maps_allocated_def)

text \<open>
  Claim C8 as stated fails: a buffer that holds one container without samples makes
  \<open>collectSamples\<close> return true although no sample was drained and the aggregator is unchanged.
\<close>

theorem collectSamples_empty_container:
  "concat (buffer (example_output ''run1'' [[]])) = [] \<and>
   collectSamples (example_output ''run1'' [[]]) = Inr (True, example_output ''run1'' [])"
  by (simp add: example_output_def collectSamples_def GetBufferedSamples_def)

subsection \<open>Cleaning after a flush\<close>

lemma fold_delete_all: "fst ` set al \<subseteq> set ks \<Longrightarrow> fold AList.delete ks al = []"
proof (induction ks arbitrary: al)
  case Nil
  then show ?case by simp
next
  case (Cons k ks)
  have "fst ` set (AList.delete k al) \<subseteq> set ks"
    using Cons.prems by (auto simp: AList.delete_eq)
  then show ?case by (simp add: Cons.IH)
qed

lemma length_Clean [simp]: "length (Clean st a) = length st"
  by (simp add: Clean_def split: option.splits)

lemma entries_Clean_same [simp]: "entries (Clean st a) a = []"
  by (simp add: Clean_def entries_def fold_delete_all split: option.splits)

lemma entries_Clean_empty: "entries st b = [] \<Longrightarrow> entries (Clean st a) b = []"
  by (auto simp: Clean_def entries_def fold_delete_all nth_list_update split: option.splits if_splits)

lemma encodeSeries_clears:
  assumes "encodeSeries out xs = (ms, out')"
  shows "activeSeries out' = activeSeries out \<and> buffer out' = buffer out \<and>
         referenceID out' = referenceID out \<and> client out' = client out \<and>
         length (mapStore out') = length (mapStore out) \<and>
         (\<forall>b. entries (mapStore out) b = [] \<or> b \<in> snd ` set xs
               \<longrightarrow> entries (mapStore out') b = [])"
  using assms
proof (induction xs arbitrary: out ms out')
  case Nil
  then show ?case by simp
next
  case (Cons x xs)
  obtain m aggr where x: "x = (m, aggr)" by (cases x)
  show ?case
  proof (cases "length (entries (mapStore out) aggr) < 1")
    case True
    then have e: "entries (mapStore out) aggr = []" by simp
    from Cons.prems True have "encodeSeries out xs = (ms, out')" by (simp add: x)
    from Cons.IH[OF this] e show ?thesis by (auto simp: x)
  next
    case False
    let ?o1 = "out\<lparr>mapStore := Clean (mapStore out) aggr\<rparr>"
    obtain ms1 where r: "encodeSeries ?o1 xs = (ms1, out')"
      using Cons.prems False by (auto simp: x Let_def split: prod.splits)
    from Cons.IH[OF r] show ?thesis
      by (auto simp: x entries_Clean_empty)
  qed
qed

lemma collectSamples_after_clean:
  assumes "map_of (activeSeries out) (Metric (TimeSeries s)) = Some a"
    and "Samples a = Some r" and "r < length (mapStore out)"
    and "entries (mapStore out) a = []"
  shows "collectSamples (out\<lparr>buffer := [[s]]\<rparr>) =
     Inr (True, out\<lparr>buffer := [], mapStore := (mapStore out)[r := [(TimeSeries s, [s])]]\<rparr>)"
proof -
  have "mapStore out ! r = []" using assms(2-4) by (simp add: entries_def)
  then have "AddSample (mapStore out) a s = Inr ((mapStore out)[r := [(TimeSeries s, [s])]])"
    using assms(2,3) by (simp add: AddSample_def)
  then show ?thesis using assms(1)
    by (simp add: collectSamples_def GetBufferedSamples_def)
qed

text \<open>
  Claim C7. Let every entry of \<open>activeSeries\<close> refer to a map, the reference ID be set and the
  buffer hold any containers of samples. The flush tick returns, and afterwards: every metric
  of a buffered sample has an entry in \<open>activeSeries\<close>; every entry that was there before is
  still there, with the same map; the map of every entry is empty, so that no time series
  has a sample list left; and a next sample of a metric with an entry is collected without
  a change to \<open>activeSeries\<close>, into the map of that entry, which then holds this sample alone.
\<close>

theorem flushMetrics_cleans_and_keeps:
  assumes "maps_allocated out" and "referenceID out \<noteq> []" and "buffer out \<noteq> []"
  shows "\<exists>out' calls. flushMetrics ev out = Inr (out', calls) \<and>
     (\<forall>s \<in> set (concat (buffer out)).
        map_of (activeSeries out') (Metric (TimeSeries s)) \<noteq> None) \<and>
     (\<forall>m a. map_of (activeSeries out) m = Some a \<longrightarrow> map_of (activeSeries out') m = Some a) \<and>
     (\<forall>(m, a) \<in> set (activeSeries out'). entries (mapStore out') a = []) \<and>
     (\<forall>s a. map_of (activeSeries out') (Metric (TimeSeries s)) = Some a \<longrightarrow>
        (\<exists>out''. collectSamples (out'\<lparr>buffer := [[s]]\<rparr>) = Inr (True, out'') \<and>
           activeSeries out'' = activeSeries out' \<and>
           entries (mapStore out'') a = [(TimeSeries s, [s])]))"
proof -
  from collectSamples_total[OF assms(1)] assms(3) obtain out1
    where c: "collectSamples out = Inr (True, out1)"
      and e: "extends (out\<lparr>buffer := []\<rparr>) out1"
      and k: "\<forall>s \<in> set (concat (buffer out)).
                map_of (activeSeries out1) (Metric (TimeSeries s)) \<noteq> None"
    by auto
  obtain metricSet out2 where enc: "encodeSeries out1 (activeSeries out1) = (metricSet, out2)"
    by (cases "encodeSeries out1 (activeSeries out1)")
  note cl = encodeSeries_clears[OF enc]
  obtain err calls where p: "Push ev (client out2) (referenceID out2) \<lparr>Metrics = metricSet\<rparr> = (err, calls)"
    by (cases "Push ev (client out2) (referenceID out2) \<lparr>Metrics = metricSet\<rparr>")
  have fl: "\<exists>calls'. flushMetrics ev out = Inr (out2, calls')"
    using assms(2) c enc p by (simp add: flushMetrics_def split: option.splits)
  have 1: "\<forall>s \<in> set (concat (buffer out)).
        map_of (activeSeries out2) (Metric (TimeSeries s)) \<noteq> None"
    using k cl by simp
  have 2: "\<forall>m a. map_of (activeSeries out) m = Some a \<longrightarrow> map_of (activeSeries out2) m = Some a"
    using e cl by (simp add: extends_def)
  have 3: "\<forall>(m, a) \<in> set (activeSeries out2). entries (mapStore out2) a = []"
    using cl by force
  have al: "maps_allocated out2" using e cl by (simp add: extends_def maps_allocated_iff)
  have 4: "\<exists>out''. collectSamples (out2\<lparr>buffer := [[s]]\<rparr>) = Inr (True, out'') \<and>
           activeSeries out'' = activeSeries out2 \<and>
           entries (mapStore out'') a = [(TimeSeries s, [s])]"
    if l: "map_of (activeSeries out2) (Metric (TimeSeries s)) = Some a" for s a
  proof -
    from maps_allocated_lookup[OF al l] obtain r
      where r: "Samples a = Some r" "r < length (mapStore out2)" by blast
    have "entries (mapStore out2) a = []" using 3 map_of_SomeD[OF l] by auto
    from collectSamples_after_clean[OF l r this] r show ?thesis
      by (simp add: entries_def)
  qed
  from fl 1 2 3 4 show ?thesis by blast
qed

text \<open>Three samples of one time series, flushed for the test run \<open>run1\<close>.\<close>

theorem flushMetrics_cleans_and_keeps_witness:
  "maps_allocated (example_output ''run1'' [replicate 3 (example_sample (example_metric 1 Counter) 42)]) \<and>
   referenceID (example_output ''run1'' [replicate 3 (example_sample (example_metric 1 Counter) 42)]) \<noteq> [] \<and>
   buffer (example_output ''run1'' [replicate 3 (example_sample (example_metric 1 Counter) 42)]) \<noteq> [] \<and>
   (\<exists>out' calls.
      flushMetrics (example_env 3)
        (example_output ''run1'' [replicate 3 (example_sample (example_metric 1 Counter) 42)])
        = Inr (out', calls) \<and>
      map_of (activeSeries out') (example_metric 1 Counter) \<noteq> None \<and>
      (\<forall>(m, a) \<in> set (activeSeries out'). entries (mapStore out') a = []))"
  using flushMetrics_cleans_and_keeps
          [of "example_output ''run1'' [replicate 3 (example_sample (example_metric 1 Counter) 42)]"
              "example_env 3"]
  by (simp add: example_output_def maps_allocated_def example_sample_def) blast

end
